theory Spec2Isabelle
  imports Main "HOL-Library.Word" "HOL-Library.Multiset"
begin

unbundle bit_operations_syntax

section \<open>Bytes\<close>

type_synonym byte = "8 word"
type_synonym bytes = "byte list"

section \<open>Keccak-256\<close>

text \<open>
  Both halves of the airdrop hash with Keccak-256: the offline builder through
  \<^verbatim>\<open>ethers.keccak256\<close> and \<^verbatim>\<open>ethers.solidityPackedKeccak256\<close>, the contract through
  Solidity's \<^verbatim>\<open>keccak256\<close>. The primitive is not part of the repository; it is
  written out here (Keccak-f[1600], rate 1088, capacity 512, original Keccak padding) so
  that every definition below can be evaluated. The 25 lanes of the state are 64-bit
  values held in \<open>int\<close>, lane \<open>(x, y)\<close> at position \<open>x + 5y\<close>.
\<close>

type_synonym lane = int

datatype kstate = KS lane lane lane lane lane  lane lane lane lane lane  lane lane lane lane lane
                     lane lane lane lane lane  lane lane lane lane lane

definition mask64 :: int where "mask64 = 18446744073709551615"

definition rotl64 :: "lane \<Rightarrow> nat \<Rightarrow> lane" where
  "rotl64 x n = take_bit 64 (push_bit n x) OR drop_bit (64 - n) x"

definition xor5 :: "lane \<Rightarrow> lane \<Rightarrow> lane \<Rightarrow> lane \<Rightarrow> lane \<Rightarrow> lane" where
  "xor5 a b c d e = a XOR b XOR c XOR d XOR e"

definition chi1 :: "lane \<Rightarrow> lane \<Rightarrow> lane \<Rightarrow> lane" where
  "chi1 a b c = a XOR ((mask64 XOR b) AND c)"

fun theta_apply :: "kstate \<Rightarrow> lane \<Rightarrow> lane \<Rightarrow> lane \<Rightarrow> lane \<Rightarrow> lane \<Rightarrow> kstate" where
  "theta_apply (KS a0 a1 a2 a3 a4 a5 a6 a7 a8 a9 a10 a11 a12 a13 a14 a15 a16 a17 a18 a19 a20 a21 a22 a23 a24) d0 d1 d2 d3 d4 =
     KS (a0 XOR d0) (a1 XOR d1) (a2 XOR d2) (a3 XOR d3) (a4 XOR d4)
        (a5 XOR d0) (a6 XOR d1) (a7 XOR d2) (a8 XOR d3) (a9 XOR d4)
        (a10 XOR d0) (a11 XOR d1) (a12 XOR d2) (a13 XOR d3) (a14 XOR d4)
        (a15 XOR d0) (a16 XOR d1) (a17 XOR d2) (a18 XOR d3) (a19 XOR d4)
        (a20 XOR d0) (a21 XOR d1) (a22 XOR d2) (a23 XOR d3) (a24 XOR d4)"

fun theta_d :: "kstate \<Rightarrow> lane \<Rightarrow> lane \<Rightarrow> lane \<Rightarrow> lane \<Rightarrow> lane \<Rightarrow> kstate" where
  "theta_d s c0 c1 c2 c3 c4 =
     theta_apply s (c4 XOR rotl64 c1 1) (c0 XOR rotl64 c2 1) (c1 XOR rotl64 c3 1)
                   (c2 XOR rotl64 c4 1) (c3 XOR rotl64 c0 1)"

fun theta :: "kstate \<Rightarrow> kstate" where
  "theta (KS a0 a1 a2 a3 a4 a5 a6 a7 a8 a9 a10 a11 a12 a13 a14 a15 a16 a17 a18 a19 a20 a21 a22 a23 a24) =
     theta_d (KS a0 a1 a2 a3 a4 a5 a6 a7 a8 a9 a10 a11 a12 a13 a14 a15 a16 a17 a18 a19 a20 a21 a22 a23 a24)
       (xor5 a0 a5 a10 a15 a20) (xor5 a1 a6 a11 a16 a21) (xor5 a2 a7 a12 a17 a22)
       (xor5 a3 a8 a13 a18 a23) (xor5 a4 a9 a14 a19 a24)"

text \<open>\<open>rho\<close> and \<open>pi\<close> in one pass: lane \<open>(x, y)\<close> (stored at index \<open>x + 5y\<close>) is rotated by its
  offset and moved to \<open>(y, 2x + 3y)\<close>.\<close>

fun rho_pi :: "kstate \<Rightarrow> kstate" where
  "rho_pi (KS a0 a1 a2 a3 a4 a5 a6 a7 a8 a9 a10 a11 a12 a13 a14 a15 a16 a17 a18 a19 a20 a21 a22 a23 a24) =
     KS a0 (rotl64 a6 44) (rotl64 a12 43) (rotl64 a18 21) (rotl64 a24 14)
        (rotl64 a3 28) (rotl64 a9 20) (rotl64 a10 3) (rotl64 a16 45) (rotl64 a22 61)
        (rotl64 a1 1) (rotl64 a7 6) (rotl64 a13 25) (rotl64 a19 8) (rotl64 a20 18)
        (rotl64 a4 27) (rotl64 a5 36) (rotl64 a11 10) (rotl64 a17 15) (rotl64 a23 56)
        (rotl64 a2 62) (rotl64 a8 55) (rotl64 a14 39) (rotl64 a15 41) (rotl64 a21 2)"

fun chi_iota :: "kstate \<Rightarrow> lane \<Rightarrow> kstate" where
  "chi_iota (KS b0 b1 b2 b3 b4 b5 b6 b7 b8 b9 b10 b11 b12 b13 b14 b15 b16 b17 b18 b19 b20 b21 b22 b23 b24) rc =
     KS (chi1 b0 b1 b2 XOR rc) (chi1 b1 b2 b3) (chi1 b2 b3 b4) (chi1 b3 b4 b0) (chi1 b4 b0 b1)
        (chi1 b5 b6 b7) (chi1 b6 b7 b8) (chi1 b7 b8 b9) (chi1 b8 b9 b5) (chi1 b9 b5 b6)
        (chi1 b10 b11 b12) (chi1 b11 b12 b13) (chi1 b12 b13 b14) (chi1 b13 b14 b10) (chi1 b14 b10 b11)
        (chi1 b15 b16 b17) (chi1 b16 b17 b18) (chi1 b17 b18 b19) (chi1 b18 b19 b15) (chi1 b19 b15 b16)
        (chi1 b20 b21 b22) (chi1 b21 b22 b23) (chi1 b22 b23 b24) (chi1 b23 b24 b20) (chi1 b24 b20 b21)"

definition round_constants :: "lane list" where
  "round_constants =
    [0x0000000000000001, 0x0000000000008082, 0x800000000000808A, 0x8000000080008000,
     0x000000000000808B, 0x0000000080000001, 0x8000000080008081, 0x8000000000008009,
     0x000000000000008A, 0x0000000000000088, 0x0000000080008009, 0x000000008000000A,
     0x000000008000808B, 0x800000000000008B, 0x8000000000008089, 0x8000000000008003,
     0x8000000000008002, 0x8000000000000080, 0x000000000000800A, 0x800000008000000A,
     0x8000000080008081, 0x8000000000008080, 0x0000000080000001, 0x8000000080008008]"

definition keccak_round :: "kstate \<Rightarrow> lane \<Rightarrow> kstate" where
  "keccak_round s rc = chi_iota (rho_pi (theta s)) rc"

definition keccak_f :: "kstate \<Rightarrow> kstate" where
  "keccak_f s = foldl keccak_round s round_constants"

text \<open>A lane is read from eight bytes, least significant first.\<close>

fun lane_of_bytes :: "int list \<Rightarrow> lane" where
  "lane_of_bytes [] = 0"
| "lane_of_bytes (b # bs) = b + 256 * lane_of_bytes bs"

fun lanes_of_block :: "int list \<Rightarrow> lane list" where
  "lanes_of_block (b0 # b1 # b2 # b3 # b4 # b5 # b6 # b7 # rest) =
     lane_of_bytes [b0, b1, b2, b3, b4, b5, b6, b7] # lanes_of_block rest"
| "lanes_of_block _ = []"

fun absorb_block :: "kstate \<Rightarrow> lane list \<Rightarrow> kstate" where
  "absorb_block (KS a0 a1 a2 a3 a4 a5 a6 a7 a8 a9 a10 a11 a12 a13 a14 a15 a16 a17 a18 a19 a20 a21 a22 a23 a24)
     [m0, m1, m2, m3, m4, m5, m6, m7, m8, m9, m10, m11, m12, m13, m14, m15, m16] =
     keccak_f (KS (a0 XOR m0) (a1 XOR m1) (a2 XOR m2) (a3 XOR m3) (a4 XOR m4) (a5 XOR m5) (a6 XOR m6)
         (a7 XOR m7) (a8 XOR m8) (a9 XOR m9) (a10 XOR m10) (a11 XOR m11) (a12 XOR m12) (a13 XOR m13)
         (a14 XOR m14) (a15 XOR m15) (a16 XOR m16) a17 a18 a19 a20 a21 a22 a23 a24)"
| "absorb_block s _ = s"

text \<open>Keccak padding (pad10*1, first byte \<open>0x01\<close>, last byte \<open>0x80\<close>) to a multiple of
  the rate, 136 bytes for a 256-bit digest.\<close>

definition pad :: "int list \<Rightarrow> int list" where
  "pad m = (let k = 136 - (length m mod 136) in
     if k = 1 then m @ [0x81] else m @ [0x01] @ replicate (k - 2) 0 @ [0x80])"

function absorb :: "kstate \<Rightarrow> int list \<Rightarrow> kstate" where
  "absorb s m = (if length m < 136 then s else absorb (absorb_block s (lanes_of_block (take 136 m))) (drop 136 m))"
  by pat_completeness auto
termination by (relation "measure (\<lambda>(s, m). length m)") auto

declare absorb.simps [simp del]

fun bytes_of_lane :: "nat \<Rightarrow> lane \<Rightarrow> int list" where
  "bytes_of_lane 0 x = []"
| "bytes_of_lane (Suc n) x = (x mod 256) # bytes_of_lane n (x div 256)"

fun squeeze :: "kstate \<Rightarrow> int list" where
  "squeeze (KS a0 a1 a2 a3 a4 a5 a6 a7 a8 a9 a10 a11 a12 a13 a14 a15 a16 a17 a18 a19 a20 a21 a22 a23 a24) =
     bytes_of_lane 8 a0 @ bytes_of_lane 8 a1 @ bytes_of_lane 8 a2 @ bytes_of_lane 8 a3"

definition zero_state :: kstate where
  "zero_state = KS 0 0 0 0 0 0 0 0 0 0 0 0 0 0 0 0 0 0 0 0 0 0 0 0 0"

definition keccak256_int :: "int list \<Rightarrow> int list" where
  "keccak256_int m = squeeze (absorb zero_state (pad m))"

definition keccak256 :: "bytes \<Rightarrow> bytes" where
  "keccak256 m = map word_of_int (keccak256_int (map uint m))"


section \<open>Solidity values and encodings\<close>

type_synonym address = "160 word"
type_synonym uint256 = "256 word"
type_synonym bytes32 = "256 word"

text \<open>The \<open>n\<close> low bytes of a word, most significant first, and the word read back from
  big-endian bytes.\<close>

fun be_bytes :: "nat \<Rightarrow> 'a::len word \<Rightarrow> bytes" where
  "be_bytes 0 w = []"
| "be_bytes (Suc n) w = be_bytes n (drop_bit 8 w) @ [ucast w]"

definition word_of_be :: "bytes \<Rightarrow> 'a::len word" where
  "word_of_be bs = foldl (\<lambda>acc b. push_bit 8 acc OR ucast b) 0 bs"

text \<open>\<^verbatim>\<open>abi.encodePacked(address, uint256)\<close>: the 20 bytes of the address followed by the
  32 bytes of the amount, both big-endian and without padding between them.\<close>

definition encodePacked :: "address \<Rightarrow> uint256 \<Rightarrow> bytes" where
  "encodePacked a v = be_bytes 20 a @ be_bytes 32 v"

text \<open>Solidity's \<^verbatim>\<open>keccak256\<close>, with the digest as a \<^verbatim>\<open>bytes32\<close> value.\<close>

definition keccak256_sol :: "bytes \<Rightarrow> bytes32" where
  "keccak256_sol m = word_of_be (keccak256 m)"

text \<open>Errors of the contract (its custom errors, in the order it declares them), the
  compiler's arithmetic panic of Solidity 0.8 (\<open>Panic 0x11\<close> on overflow and underflow), the
  revert of \<^verbatim>\<open>onlyOwner\<close>, and a revert raised inside the token contract.\<close>

datatype error =
    ClaimPeriodEnded
  | ClaimPeriodNotStarted
  | AlreadyClaimed
  | InvalidProof
  | InvalidAmount
  | InsufficientTokens
  | ZeroAddress
  | Panic nat
  | CallerIsNotTheOwner
  | NewOwnerIsZeroAddress
  | TokenReverted

definition checked_add :: "uint256 \<Rightarrow> uint256 \<Rightarrow> error + uint256" where
  "checked_add a b = (if uint a + uint b < 2 ^ 256 then Inr (a + b) else Inl (Panic 0x11))"

definition checked_sub :: "uint256 \<Rightarrow> uint256 \<Rightarrow> error + uint256" where
  "checked_sub a b = (if b \<le> a then Inr (a - b) else Inl (Panic 0x11))"

subsection \<open>OpenZeppelin \<^verbatim>\<open>MerkleProof\<close>\<close>

text \<open>The library the contract imports: a proof is folded into the leaf, each step
  hashing the running value and the next proof element in sorted order, and the result is
  compared with the root.\<close>

definition efficientHash :: "bytes32 \<Rightarrow> bytes32 \<Rightarrow> bytes32" where
  "efficientHash a b = keccak256_sol (be_bytes 32 a @ be_bytes 32 b)"

definition hashPair :: "bytes32 \<Rightarrow> bytes32 \<Rightarrow> bytes32" where
  "hashPair a b = (if a < b then efficientHash a b else efficientHash b a)"

fun processProof :: "bytes32 list \<Rightarrow> bytes32 \<Rightarrow> bytes32" where
  "processProof [] computedHash = computedHash"
| "processProof (p # ps) computedHash = processProof ps (hashPair computedHash p)"

definition MerkleProof_verify :: "bytes32 list \<Rightarrow> bytes32 \<Rightarrow> bytes32 \<Rightarrow> bool" where
  "MerkleProof_verify merkleProof root leaf = (processProof merkleProof leaf = root)"

subsection \<open>The token, as the airdrop contract sees it\<close>

text \<open>The airdrop holds an \<^verbatim>\<open>IERC20\<close>; the repository's \<^verbatim>\<open>PayCryptToken\<close> is an
  OpenZeppelin ERC20 whose transfers revert while the token is paused. A transfer
  reverts when the token is paused, when sender or receiver is the zero address, or when
  the sender's balance is too small; otherwise it moves the amount (the receiver's
  balance is increased without an overflow check, as in OpenZeppelin's \<^verbatim>\<open>_transfer\<close>).\<close>

record erc20 =
  balanceOf :: "address \<Rightarrow> uint256"
  paused :: bool

definition safeTransfer :: "erc20 \<Rightarrow> address \<Rightarrow> address \<Rightarrow> uint256 \<Rightarrow> error + erc20" where
  "safeTransfer t from to amount =
     (if paused t \<or> from = 0 \<or> to = 0 \<or> balanceOf t from < amount then Inl TokenReverted
      else let b1 = (balanceOf t)(from := balanceOf t from - amount)
           in Inr (t\<lparr>balanceOf := b1(to := b1 to + amount)\<rparr>))"

section \<open>The contract \<^verbatim>\<open>PayCryptAirdrop\<close>\<close>

datatype event =
    TokensClaimed address uint256 uint256
  | AirdropUpdated bytes32 uint256 uint256
  | EmergencyWithdrawn address uint256
  | OwnershipTransferred address address

text \<open>The storage of the contract, with its own address, the state of the token contract
  it points to, and the log of emitted events.\<close>

record airdrop =
  this :: address
  owner :: address
  token :: address
  ledger :: erc20
  merkleRoot :: bytes32
  claimPeriodEnd :: uint256
  totalClaimable :: uint256
  totalClaimed :: uint256
  hasClaimed :: "address \<Rightarrow> bool"
  claimedAmount :: "address \<Rightarrow> uint256"
  events :: "event list"

text \<open>Every function takes the state, \<^verbatim>\<open>msg.sender\<close> and \<^verbatim>\<open>block.timestamp\<close> where it
  reads them, and returns \<open>Inl\<close> of the error when it reverts. The \<^verbatim>\<open>nonReentrant\<close>
  modifier of \<^verbatim>\<open>claimTokens\<close> has no counterpart: a call here is a whole transaction and the
  token makes no call back, so the guard is never found entered. In \<open>claimTokens\<close> the sum
  \<open>totalClaimed + amount\<close> is computed once: the statement \<^verbatim>\<open>totalClaimed += amount\<close> repeats
  the addition that the cap check has just made without overflow.\<close>

definition constructor ::
  "address \<Rightarrow> address \<Rightarrow> uint256 \<Rightarrow> erc20 \<Rightarrow> address \<Rightarrow> bytes32 \<Rightarrow> uint256 \<Rightarrow> uint256 \<Rightarrow> error + airdrop" where
  "constructor self sender now tk token' merkleRoot' claimPeriodEnd' totalClaimable' =
     (if token' = 0 then Inl ZeroAddress
      else if claimPeriodEnd' \<le> now then Inl ClaimPeriodEnded
      else Inr \<lparr>this = self, owner = sender, token = token', ledger = tk,
                merkleRoot = merkleRoot', claimPeriodEnd = claimPeriodEnd',
                totalClaimable = totalClaimable', totalClaimed = 0,
                hasClaimed = (\<lambda>_. False), claimedAmount = (\<lambda>_. 0),
                events = [OwnershipTransferred 0 sender]\<rparr>)"

definition claimTokens ::
  "airdrop \<Rightarrow> address \<Rightarrow> uint256 \<Rightarrow> uint256 \<Rightarrow> bytes32 list \<Rightarrow> error + airdrop" where
  "claimTokens s sender now amount merkleProof =
     (if now > claimPeriodEnd s then Inl ClaimPeriodEnded
      else if hasClaimed s sender then Inl AlreadyClaimed
      else if amount = 0 then Inl InvalidAmount
      else if \<not> MerkleProof_verify merkleProof (merkleRoot s) (keccak256_sol (encodePacked sender amount))
        then Inl InvalidProof
      else case checked_add (totalClaimed s) amount of
        Inl e \<Rightarrow> Inl e
      | Inr newTotal \<Rightarrow>
          if newTotal > totalClaimable s then Inl InsufficientTokens
          else
            let s1 = s\<lparr>hasClaimed := (hasClaimed s)(sender := True),
                       claimedAmount := (claimedAmount s)(sender := amount),
                       totalClaimed := newTotal\<rparr>
            in case safeTransfer (ledger s1) (this s1) sender amount of
                 Inl e \<Rightarrow> Inl e
               | Inr tk \<Rightarrow>
                   Inr (s1\<lparr>ledger := tk,
                           events := events s1 @ [TokensClaimed sender amount now]\<rparr>))"

definition canClaim ::
  "airdrop \<Rightarrow> uint256 \<Rightarrow> address \<Rightarrow> uint256 \<Rightarrow> bytes32 list \<Rightarrow> error + bool" where
  "canClaim s now user amount merkleProof =
     (if now > claimPeriodEnd s then Inr False
      else if hasClaimed s user then Inr False
      else if amount = 0 then Inr False
      else case checked_add (totalClaimed s) amount of
        Inl e \<Rightarrow> Inl e
      | Inr newTotal \<Rightarrow>
          if newTotal > totalClaimable s then Inr False
          else Inr (MerkleProof_verify merkleProof (merkleRoot s) (keccak256_sol (encodePacked user amount))))"

definition getClaimStatus :: "airdrop \<Rightarrow> uint256 \<Rightarrow> address \<Rightarrow> bool \<times> uint256 \<times> bool" where
  "getClaimStatus s now user =
     (hasClaimed s user, claimedAmount s user, \<not> hasClaimed s user \<and> now \<le> claimPeriodEnd s)"

definition getAirdropStats ::
  "airdrop \<Rightarrow> uint256 \<Rightarrow> error + uint256 \<times> uint256 \<times> uint256 \<times> uint256 \<times> bool" where
  "getAirdropStats s now =
     (case checked_sub (totalClaimable s) (totalClaimed s) of
        Inl e \<Rightarrow> Inl e
      | Inr remaining \<Rightarrow>
          Inr (totalClaimable s, totalClaimed s, remaining, claimPeriodEnd s,
               now \<le> claimPeriodEnd s))"

definition updateAirdrop ::
  "airdrop \<Rightarrow> address \<Rightarrow> uint256 \<Rightarrow> bytes32 \<Rightarrow> uint256 \<Rightarrow> uint256 \<Rightarrow> error + airdrop" where
  "updateAirdrop s sender now merkleRoot' claimPeriodEnd' totalClaimable' =
     (if sender \<noteq> owner s then Inl CallerIsNotTheOwner
      else if claimPeriodEnd' \<le> now then Inl ClaimPeriodEnded
      else Inr (s\<lparr>merkleRoot := merkleRoot',
                  claimPeriodEnd := claimPeriodEnd',
                  totalClaimable := totalClaimable',
                  events := events s @ [AirdropUpdated merkleRoot' claimPeriodEnd' totalClaimable']\<rparr>))"

definition emergencyWithdraw :: "airdrop \<Rightarrow> address \<Rightarrow> uint256 \<Rightarrow> error + airdrop" where
  "emergencyWithdraw s sender now =
     (if sender \<noteq> owner s then Inl CallerIsNotTheOwner
      else if now \<le> claimPeriodEnd s then Inl ClaimPeriodNotStarted
      else let remainingBalance = balanceOf (ledger s) (this s) in
        if remainingBalance > 0 then
          (case safeTransfer (ledger s) (this s) (owner s) remainingBalance of
             Inl e \<Rightarrow> Inl e
           | Inr tk \<Rightarrow>
               Inr (s\<lparr>ledger := tk,
                      events := events s @ [EmergencyWithdrawn (owner s) remainingBalance]\<rparr>))
        else Inr s)"

definition extendClaimPeriod :: "airdrop \<Rightarrow> address \<Rightarrow> uint256 \<Rightarrow> error + airdrop" where
  "extendClaimPeriod s sender newEndTime =
     (if sender \<noteq> owner s then Inl CallerIsNotTheOwner
      else if newEndTime \<le> claimPeriodEnd s then Inl InvalidAmount
      else Inr (s\<lparr>claimPeriodEnd := newEndTime\<rparr>))"

text \<open>The two functions the contract inherits from OpenZeppelin's \<^verbatim>\<open>Ownable\<close>.\<close>

definition transferOwnership :: "airdrop \<Rightarrow> address \<Rightarrow> address \<Rightarrow> error + airdrop" where
  "transferOwnership s sender newOwner =
     (if sender \<noteq> owner s then Inl CallerIsNotTheOwner
      else if newOwner = 0 then Inl NewOwnerIsZeroAddress
      else Inr (s\<lparr>owner := newOwner,
                  events := events s @ [OwnershipTransferred (owner s) newOwner]\<rparr>))"

definition renounceOwnership :: "airdrop \<Rightarrow> address \<Rightarrow> error + airdrop" where
  "renounceOwnership s sender =
     (if sender \<noteq> owner s then Inl CallerIsNotTheOwner
      else Inr (s\<lparr>owner := 0, events := events s @ [OwnershipTransferred (owner s) 0]\<rparr>))"

subsection \<open>Transactions\<close>

text \<open>A transaction is a sender, the timestamp of its block and a call of one of the
  state-changing functions. A transaction that reverts leaves the state as it was.\<close>

datatype call =
    ClaimTokens uint256 "bytes32 list"
  | UpdateAirdrop bytes32 uint256 uint256
  | EmergencyWithdraw
  | ExtendClaimPeriod uint256
  | TransferOwnership address
  | RenounceOwnership

type_synonym tx = "address \<times> uint256 \<times> call"

fun execute :: "airdrop \<Rightarrow> tx \<Rightarrow> error + airdrop" where
  "execute s (sender, now, ClaimTokens amount merkleProof) = claimTokens s sender now amount merkleProof"
| "execute s (sender, now, UpdateAirdrop r e c) = updateAirdrop s sender now r e c"
| "execute s (sender, now, EmergencyWithdraw) = emergencyWithdraw s sender now"
| "execute s (sender, now, ExtendClaimPeriod e) = extendClaimPeriod s sender e"
| "execute s (sender, now, TransferOwnership a) = transferOwnership s sender a"
| "execute s (sender, now, RenounceOwnership) = renounceOwnership s sender"

definition transact :: "airdrop \<Rightarrow> tx \<Rightarrow> airdrop \<times> error option" where
  "transact s t = (case execute s t of Inl e \<Rightarrow> (s, Some e) | Inr s' \<Rightarrow> (s', None))"

definition run :: "airdrop \<Rightarrow> tx list \<Rightarrow> airdrop" where
  "run s txs = foldl (\<lambda>s t. fst (transact s t)) s txs"

section \<open>The offline builder: values of the JavaScript runtime\<close>

text \<open>
  The builder \<^verbatim>\<open>scripts/generate-merkle.ts\<close> passes Node \<^verbatim>\<open>Buffer\<close>s (byte lists here) and hex
  strings between the libraries it calls. Strings are lists of characters, big integers
  are \<open>int\<close>, and a JavaScript exception is the value \<open>None\<close>.
\<close>

definition hex_char :: "nat \<Rightarrow> char" where
  "hex_char n = (if n < 10 then char_of (48 + n) else char_of (87 + n))"

definition hex_value :: "char \<Rightarrow> nat option" where
  "hex_value c =
     (let n = (of_char c :: nat) in
      if 48 \<le> n \<and> n \<le> 57 then Some (n - 48)
      else if 97 \<le> n \<and> n \<le> 102 then Some (n - 87)
      else if 65 \<le> n \<and> n \<le> 70 then Some (n - 55)
      else None)"

definition is_hex_digit :: "char \<Rightarrow> bool" where
  "is_hex_digit c = (hex_value c \<noteq> None)"

text \<open>\<^verbatim>\<open>buf.toString('hex')\<close>: two lower-case digits per byte.\<close>

definition hex_of_bytes :: "bytes \<Rightarrow> string" where
  "hex_of_bytes bs = concat (map (\<lambda>b. [hex_char (unat b div 16), hex_char (unat b mod 16)]) bs)"

text \<open>\<^verbatim>\<open>Buffer.from(s, 'hex')\<close>: decoding stops at the first pair that is not two hex
  digits; a trailing single digit is dropped.\<close>

fun buffer_from_hex :: "string \<Rightarrow> bytes" where
  "buffer_from_hex (c # d # cs) =
     (case (hex_value c, hex_value d) of
        (Some h, Some l) \<Rightarrow> of_nat (16 * h + l) # buffer_from_hex cs
      | _ \<Rightarrow> [])"
| "buffer_from_hex _ = []"

definition strip_0x :: "string \<Rightarrow> string" where
  "strip_0x v = (if take 2 v = ''0x'' then drop 2 v else v)"

definition isHexString :: "string \<Rightarrow> bool" where
  "isHexString v = list_all is_hex_digit (strip_0x v)"

definition bufferify :: "string \<Rightarrow> bytes" where
  "bufferify v = (if isHexString v then buffer_from_hex (strip_0x v) else map of_char v)"

definition bufferToHex :: "bytes \<Rightarrow> string" where
  "bufferToHex b = ''0x'' @ hex_of_bytes b"

text \<open>\<^verbatim>\<open>Buffer.compare\<close>: the bytes are compared as unsigned numbers from the left; a
  proper prefix is smaller.\<close>

fun buffer_compare :: "bytes \<Rightarrow> bytes \<Rightarrow> int" where
  "buffer_compare [] [] = 0"
| "buffer_compare [] (y # ys) = - 1"
| "buffer_compare (x # xs) [] = 1"
| "buffer_compare (x # xs) (y # ys) =
     (if x < y then - 1 else if y < x then 1 else buffer_compare xs ys)"

section \<open>The offline builder: the functions of \<^verbatim>\<open>ethers\<close> it calls\<close>

text \<open>
  The library is not part of the repository. The definitions of this section follow the
  behaviour of its version 6, the one whose names the builder uses:
  \<^item> \<^verbatim>\<open>keccak256\<close> returns the digest as a \<^verbatim>\<open>0x\<close> hex string;
  \<^item> \<^verbatim>\<open>parseEther\<close> reads a decimal string \<^verbatim>\<open>-?digits[.digits]\<close> with at least one digit and
    at most 18 significant fraction digits as a number of wei, within 512 signed bits;
  \<^item> \<^verbatim>\<open>getAddress\<close> accepts 40 hex digits with an optional \<^verbatim>\<open>0x\<close>, and demands the
    EIP-55 checksum when the digits mix upper and lower case (ICAP addresses, which it
    also accepts, are rejected here);
  \<^item> \<^verbatim>\<open>solidityPacked\<close> for the types \<^verbatim>\<open>address, uint256\<close> concatenates the 20 bytes of the
    address with the amount as 32 big-endian bytes, and throws on a negative amount or
    one of more than 32 bytes.
\<close>


definition ethers_keccak256 :: "bytes \<Rightarrow> string" where
  "ethers_keccak256 data = ''0x'' @ hex_of_bytes (keccak256 data)"

definition is_digit :: "char \<Rightarrow> bool" where
  "is_digit c = (48 \<le> (of_char c :: nat) \<and> (of_char c :: nat) \<le> 57)"

definition digits_value :: "string \<Rightarrow> int" where
  "digits_value ds = foldl (\<lambda>acc c. 10 * acc + (of_char c - 48)) 0 ds"

definition parseEther :: "string \<Rightarrow> int option" where
  "parseEther ether =
     (let negative = (take 1 ether = ''-'');
          body = (if negative then drop 1 ether else ether);
          whole = takeWhile is_digit body;
          rest = dropWhile is_digit body;
          decimal = (if take 1 rest = ''.'' then drop 1 rest else rest)
      in if \<not> list_all is_digit decimal \<or> length whole + length decimal = 0 then None
         else if \<not> list_all (\<lambda>c. c = CHR ''0'') (drop 18 decimal) then None
         else
           let padded = take 18 (decimal @ replicate (18 - length decimal) CHR ''0'');
               magnitude = digits_value (whole @ padded);
               v = (if negative then - magnitude else magnitude)
           in if - (2 ^ 511) \<le> v \<and> v < 2 ^ 511 then Some v else None)"

definition to_lower :: "char \<Rightarrow> char" where
  "to_lower c = (let n = (of_char c :: nat) in if 65 \<le> n \<and> n \<le> 90 then char_of (n + 32) else c)"

definition to_upper :: "char \<Rightarrow> char" where
  "to_upper c = (let n = (of_char c :: nat) in if 97 \<le> n \<and> n \<le> 122 then char_of (n - 32) else c)"

fun checksum_chars :: "string \<Rightarrow> bytes \<Rightarrow> string" where
  "checksum_chars (c # d # cs) (h # hs) =
     (if 8 \<le> unat h div 16 then to_upper c else c) #
     (if 8 \<le> unat h mod 16 then to_upper d else d) # checksum_chars cs hs"
| "checksum_chars cs _ = cs"

definition getChecksumAddress :: "string \<Rightarrow> string" where
  "getChecksumAddress address =
     (let chars = map to_lower (drop 2 address);
          hashed = keccak256 (map of_char chars)
      in ''0x'' @ checksum_chars chars hashed)"

definition is_upper_hex :: "char \<Rightarrow> bool" where
  "is_upper_hex c = (65 \<le> (of_char c :: nat) \<and> (of_char c :: nat) \<le> 70)"

definition is_lower_hex :: "char \<Rightarrow> bool" where
  "is_lower_hex c = (97 \<le> (of_char c :: nat) \<and> (of_char c :: nat) \<le> 102)"

definition getAddress :: "string \<Rightarrow> string option" where
  "getAddress address =
     (let prefixed = (if take 2 address = ''0x'' then address else ''0x'' @ address) in
      if length (drop 2 prefixed) = 40 \<and> list_all is_hex_digit (drop 2 prefixed) then
        (if list_ex is_upper_hex prefixed \<and> list_ex is_lower_hex prefixed then
           (if getChecksumAddress prefixed = prefixed then Some prefixed else None)
         else Some (getChecksumAddress prefixed))
      else None)"


text \<open>\<^verbatim>\<open>toBeArray\<close>: the shortest big-endian byte string of a non-negative integer (empty
  for zero); \<^verbatim>\<open>zeroPadValue\<close> pads on the left and throws when the data is too long.\<close>

function toBeArray :: "int \<Rightarrow> bytes" where
  "toBeArray v = (if v \<le> 0 then [] else toBeArray (v div 256) @ [word_of_int (v mod 256)])"
  by pat_completeness auto
termination
  by (relation "measure nat") auto

declare toBeArray.simps [simp del]

definition zeroPadValue :: "bytes \<Rightarrow> nat \<Rightarrow> bytes option" where
  "zeroPadValue data len =
     (if len < length data then None else Some (replicate (len - length data) 0 @ data))"

text \<open>Modelled from the spec: \<^verbatim>\<open>solidityPacked(['address', 'uint256'], [address, value])\<close>
  is a function of \<^verbatim>\<open>ethers\<close>; section 4.1 of the specification gives the encoding, the
  address's raw bytes followed by the amount as a fixed-width big-endian 256-bit integer.\<close>

definition solidityPacked :: "string \<Rightarrow> int \<Rightarrow> bytes option" where
  "solidityPacked address v =
     (case getAddress address of
        None \<Rightarrow> None
      | Some a \<Rightarrow>
          if v < 0 then None
          else case zeroPadValue (toBeArray v) 32 of
            None \<Rightarrow> None
          | Some padded \<Rightarrow> Some (buffer_from_hex (drop 2 a) @ padded))"

definition solidityPackedKeccak256 :: "string \<Rightarrow> int \<Rightarrow> string option" where
  "solidityPackedKeccak256 address v = map_option ethers_keccak256 (solidityPacked address v)"

section \<open>The offline builder: the tree library \<^verbatim>\<open>merkletreejs\<close>\<close>

text \<open>
  Modelled from the spec: the class \<^verbatim>\<open>MerkleTree\<close> of \<^verbatim>\<open>merkletreejs\<close> is not part of the
  repository. The builder constructs it with the leaves in list order, the hash function
  \<^verbatim>\<open>ethers.keccak256\<close> and the single option \<^verbatim>\<open>sortPairs: true\<close>. Sections 4.2 and 4.3 of
  the specification describe what it then does: sibling nodes are combined pairwise from
  the bottom up, the two hashes of a pair are put in canonical order before they are
  hashed, an odd node at the end of a level is carried up unchanged, and the proof of a
  leaf is the list of its siblings from the leaf level upwards, empty when the leaf is not
  in the tree. The definitions follow the library's functions of the same names
  (\<^verbatim>\<open>createHashes\<close>, \<^verbatim>\<open>getRoot\<close>, \<^verbatim>\<open>getProof\<close>, \<^verbatim>\<open>verify\<close> and their hex variants).
\<close>

record MerkleTree =
  leaves :: "bytes list"
  layers :: "bytes list list"

text \<open>The hash function of the tree: \<^verbatim>\<open>bufferifyFn(ethers.keccak256)\<close>.\<close>

definition hashFn :: "bytes \<Rightarrow> bytes" where
  "hashFn v = bufferify (ethers_keccak256 v)"

text \<open>\<^verbatim>\<open>[left, right].sort(Buffer.compare)\<close>.\<close>

definition sort_pair :: "bytes \<Rightarrow> bytes \<Rightarrow> bytes list" where
  "sort_pair left right = (if 0 < buffer_compare left right then [right, left] else [left, right])"

definition hash_sorted :: "bytes \<Rightarrow> bytes \<Rightarrow> bytes" where
  "hash_sorted left right = hashFn (concat (sort_pair left right))"

text \<open>Modelled from the spec: one level of \<^verbatim>\<open>createHashes\<close>, which is library code outside
  the repository. Section 4.2: sibling nodes are combined pairwise, the two hashes of a
  pair sorted before hashing, and an odd node at the end of the level is carried up
  unchanged.\<close>

fun next_layer :: "bytes list \<Rightarrow> bytes list" where
  "next_layer (left # right # nodes) = hash_sorted left right # next_layer nodes"
| "next_layer nodes = nodes"

text \<open>Modelled from the spec: \<^verbatim>\<open>createHashes\<close> of the library builds the levels bottom-up
  (section 4.2) until a level has at most one node, and keeps all of them.\<close>

function createHashes :: "bytes list \<Rightarrow> bytes list list" where
  "createHashes nodes =
     (if 1 < length nodes then nodes # createHashes (next_layer nodes) else [nodes])"
  by pat_completeness auto
termination
proof (relation "measure length")
  show "wf (measure length)" by simp
next
  fix nodes :: "bytes list"
  assume "1 < length nodes"
  moreover have "length (next_layer ns) \<le> length ns \<and> (1 < length ns \<longrightarrow> length (next_layer ns) < length ns)"
    for ns :: "bytes list"
    by (induction ns rule: next_layer.induct) auto
  ultimately show "(next_layer nodes, nodes) \<in> measure length" by simp
qed

declare createHashes.simps [simp del]

definition new_MerkleTree :: "bytes list \<Rightarrow> MerkleTree" where
  "new_MerkleTree ls = \<lparr>leaves = ls, layers = createHashes ls\<rparr>"

text \<open>Modelled from the spec: \<^verbatim>\<open>getRoot\<close> of the library returns the single node of the
  last level (section 4.2: the output is a single root hash), and the empty buffer for a
  tree without leaves.\<close>

definition root_of :: "bytes list list \<Rightarrow> bytes" where
  "root_of ls = (if ls = [] then [] else case last ls of [] \<Rightarrow> [] | node # _ \<Rightarrow> node)"

definition getRoot :: "MerkleTree \<Rightarrow> bytes" where
  "getRoot t = root_of (layers t)"

definition getHexRoot :: "MerkleTree \<Rightarrow> string" where
  "getHexRoot t = bufferToHex (getRoot t)"

text \<open>The index of the leaf in \<^verbatim>\<open>getProof\<close>: the loop runs over all leaves without
  leaving early, so it ends on the last leaf equal to the one looked for, or on \<open>-1\<close>.\<close>

definition leaf_index :: "bytes list \<Rightarrow> bytes \<Rightarrow> int" where
  "leaf_index ls leaf =
     foldl (\<lambda>index i. if buffer_compare leaf (ls ! i) = 0 then int i else index) (- 1)
       [0..<length ls]"

text \<open>Modelled from the spec: the loop of the library's \<^verbatim>\<open>getProof\<close>. Section 4.3: walk
  from the leaf to the root and collect the sibling at each level, the other member of
  the node's pair; a node without a sibling contributes nothing.\<close>

fun proof_from :: "bytes list list \<Rightarrow> nat \<Rightarrow> bytes list" where
  "proof_from [] index = []"
| "proof_from (layer # rest) index =
     (let pairIndex = (if index mod 2 = 1 then index - 1 else index + 1)
      in (if pairIndex < length layer then [layer ! pairIndex] else []) @
         proof_from rest (index div 2))"

text \<open>Modelled from the spec: \<^verbatim>\<open>getProof\<close> of the library. Section 4.3: it returns the
  empty proof when the leaf is not in the tree.\<close>

definition MerkleTree_getProof :: "MerkleTree \<Rightarrow> bytes \<Rightarrow> bytes list" where
  "MerkleTree_getProof t leaf =
     (let index = leaf_index (leaves t) leaf
      in if index \<le> - 1 then [] else proof_from (layers t) (nat index))"

definition getHexProof :: "MerkleTree \<Rightarrow> bytes \<Rightarrow> string list" where
  "getHexProof t leaf = map bufferToHex (MerkleTree_getProof t leaf)"

text \<open>Modelled from the spec: the loop of the library's \<^verbatim>\<open>verify\<close>. Section 4.2: hash
  the running value with each proof element in sorted order, up to the root.\<close>

fun verify_fold :: "bytes \<Rightarrow> string list \<Rightarrow> bytes" where
  "verify_fold hash [] = hash"
| "verify_fold hash (node # rest) =
     (let data = bufferify node
      in if buffer_compare hash data = - 1 then verify_fold (hashFn (hash @ data)) rest
         else verify_fold (hashFn (data @ hash)) rest)"

text \<open>Modelled from the spec: \<^verbatim>\<open>verify(proof, targetNode, root)\<close> of the library, for a
  proof of hex strings, a leaf buffer and a root string: the value recomputed from leaf
  and proof is compared with the root (section 2). The library's guard against missing
  arguments tests the values after they have been made buffers, so it never applies
  here.\<close>

definition MerkleTree_verify :: "string list \<Rightarrow> bytes \<Rightarrow> string \<Rightarrow> bool" where
  "MerkleTree_verify proof targetNode root =
     (buffer_compare (verify_fold targetNode proof) (bufferify root) = 0)"

section \<open>The offline builder: the class \<^verbatim>\<open>AirdropMerkleTree\<close>\<close>

text \<open>The class of \<^verbatim>\<open>scripts/generate-merkle.ts\<close>. Its constructor throws when
  \<^verbatim>\<open>createLeaf\<close> throws for one of the users; \<^verbatim>\<open>getProof\<close> and \<^verbatim>\<open>verifyProof\<close> throw when it
  throws for their arguments.\<close>

record EligibleUser =
  address :: string
  amount :: string
  reason :: "string option"

record AirdropMerkleTree =
  tree :: MerkleTree
  eligibleUsers :: "EligibleUser list"

definition createLeaf :: "string \<Rightarrow> string \<Rightarrow> bytes option" where
  "createLeaf addr amt =
     (case parseEther amt of
        None \<Rightarrow> None
      | Some amountWei \<Rightarrow>
          (case solidityPackedKeccak256 addr amountWei of
             None \<Rightarrow> None
           | Some hash \<Rightarrow> Some (buffer_from_hex (drop 2 hash))))"

definition generateMerkleTree :: "EligibleUser list \<Rightarrow> MerkleTree option" where
  "generateMerkleTree users =
     map_option new_MerkleTree (those (map (\<lambda>user. createLeaf (address user) (amount user)) users))"

definition new_AirdropMerkleTree :: "EligibleUser list \<Rightarrow> AirdropMerkleTree option" where
  "new_AirdropMerkleTree users =
     map_option (\<lambda>t. \<lparr>tree = t, eligibleUsers = users\<rparr>) (generateMerkleTree users)"

definition getMerkleRoot :: "AirdropMerkleTree \<Rightarrow> string" where
  "getMerkleRoot t = getHexRoot (tree t)"

definition getProof :: "AirdropMerkleTree \<Rightarrow> string \<Rightarrow> string \<Rightarrow> string list option" where
  "getProof t addr amt = map_option (getHexProof (tree t)) (createLeaf addr amt)"

definition verifyProof :: "AirdropMerkleTree \<Rightarrow> string \<Rightarrow> string \<Rightarrow> string list \<Rightarrow> bool option" where
  "verifyProof t addr amt proof =
     map_option (\<lambda>leaf. MerkleTree_verify proof leaf (getMerkleRoot t)) (createLeaf addr amt)"

section \<open>Offline and on-chain values\<close>

text \<open>The account an address string stands for: the 160-bit number its 40 hex digits
  spell, which is what \<^verbatim>\<open>msg.sender\<close> holds when that account sends a transaction.\<close>

definition address_value :: "string \<Rightarrow> address option" where
  "address_value a = map_option (\<lambda>c. word_of_be (buffer_from_hex (drop 2 c))) (getAddress a)"

section \<open>Reachable states and worked examples\<close>

subsection \<open>Reachable states and a worked deployment\<close>

text \<open>The states the contract can be in: those the constructor returns, and those a
  successful call leads to from one of them.\<close>

inductive reachable :: "airdrop \<Rightarrow> bool" where
  deploy: "constructor self sender now tk token' r e c = Inr s \<Longrightarrow> reachable s"
| step: "reachable s \<Longrightarrow> execute s t = Inr s' \<Longrightarrow> reachable s'"

text \<open>A small deployment used to run the contract on concrete inputs: the pool holds 10
  units of the token, the cap is 10, the window ends at time 100, and the root commits
  to the single entry (\<open>alice\<close>, 5), whose proof is empty. \<open>claimed\<close> is the state after
  \<open>alice\<close> has claimed at time 50; \<open>lowered\<close> is the state after the owner has then set the
  cap to 1; \<open>recommitted\<close> is the state after the owner has instead set a root that commits
  to the entry (\<open>deployer\<close>, \<open>2^256 - 1\<close>).\<close>

definition alice :: address where "alice = 0xA11CE"
definition deployer :: address where "deployer = 0xD0"
definition pool :: address where "pool = 0xA1D"

definition funded :: erc20 where
  "funded = \<lparr>balanceOf = (\<lambda>a. if a = pool then 10 else 0), paused = False\<rparr>"

definition deployed :: airdrop where
  "deployed =
     \<lparr>this = pool, owner = deployer, token = 0x70, ledger = funded,
      merkleRoot = keccak256_sol (encodePacked alice 5), claimPeriodEnd = 100,
      totalClaimable = 10, totalClaimed = 0,
      hasClaimed = (\<lambda>_. False), claimedAmount = (\<lambda>_. 0),
      events = [OwnershipTransferred 0 deployer]\<rparr>"

definition claimed :: airdrop where
  "claimed =
     deployed\<lparr>hasClaimed := (\<lambda>a. a = alice),
              claimedAmount := (\<lambda>a. if a = alice then 5 else 0),
              totalClaimed := 5,
              ledger := \<lparr>balanceOf = (\<lambda>a. if a = pool then 5 else if a = alice then 5 else 0),
                         paused = False\<rparr>,
              events := [OwnershipTransferred 0 deployer, TokensClaimed alice 5 50]\<rparr>"

definition lowered :: airdrop where
  "lowered =
     claimed\<lparr>merkleRoot := 0, claimPeriodEnd := 200, totalClaimable := 1,
             events := [OwnershipTransferred 0 deployer, TokensClaimed alice 5 50,
                        AirdropUpdated 0 200 1]\<rparr>"

definition max_uint256 :: uint256 where
  "max_uint256 = 0xffffffffffffffffffffffffffffffffffffffffffffffffffffffffffffffff"

definition recommitted :: airdrop where
  "recommitted =
     claimed\<lparr>merkleRoot := keccak256_sol (encodePacked deployer max_uint256),
             events := [OwnershipTransferred 0 deployer, TokensClaimed alice 5 50,
                        AirdropUpdated (keccak256_sol (encodePacked deployer max_uint256)) 100 10]\<rparr>"

text \<open>Three eligible users, with lower-case addresses (which need no checksum).\<close>

definition user1 :: EligibleUser where
  "user1 = \<lparr>address = ''0x2546bcd3c84621e976d8185a91a922ae77ecec30'', amount = ''2000'',
            reason = None\<rparr>"

definition user2 :: EligibleUser where
  "user2 = \<lparr>address = ''0x90f79bf6eb2c4f870365e785982e1f101e93b906'', amount = ''750'',
            reason = None\<rparr>"

definition user3 :: EligibleUser where
  "user3 = \<lparr>address = ''0x15d34aaf54267db7d7c367839aaf71a00a2c6a65'', amount = ''1500'',
            reason = None\<rparr>"

text \<open>The leaves of the three users, the inner nodes and the roots of the trees built
  from them, as the builder computes them; the lemmas of the worked example below check
  each one against the definitions.\<close>

definition leaf1 :: bytes where
  "leaf1 = buffer_from_hex ''f5331c29eb6d5960e173a5671c06bce3cc12fab76a4583c089191cad9602ae84''"
definition leaf2 :: bytes where
  "leaf2 = buffer_from_hex ''8279f4b205c213a0557d0d39ed03465c2f4fb3edca07c4733932e2b4d2422919''"
definition leaf3 :: bytes where
  "leaf3 = buffer_from_hex ''78e59cb2a18a17e5e773d01762c16b04b20c5e9d8a9c5ac0842e167c74fd9887''"
definition node12 :: bytes where
  "node12 = buffer_from_hex ''a14cea480189f68b30e313fdb0565c48e08062c4cdf332364bcac00e6ac04a59''"
definition node13 :: bytes where
  "node13 = buffer_from_hex ''6a88d633b290b715494c82f8cd0f6a470687f48f9fedfcfcf6c3cd4c165457ef''"
definition root123 :: bytes where
  "root123 = buffer_from_hex ''89a4093e1b5b4f589b6318aaeaa84ea242a97797d6155706d2261a85d6c83452''"
definition root132 :: bytes where
  "root132 = buffer_from_hex ''f5186b805add3584132f5c34245749081d5c56c814d4436a771b178b566b4cb3''"

definition tree12 :: AirdropMerkleTree where
  "tree12 = \<lparr>tree = new_MerkleTree [leaf1, leaf2], eligibleUsers = [user1, user2]\<rparr>"

definition tree123 :: AirdropMerkleTree where
  "tree123 = \<lparr>tree = new_MerkleTree [leaf1, leaf2, leaf3], eligibleUsers = [user1, user2, user3]\<rparr>"

definition tree132 :: AirdropMerkleTree where
  "tree132 = \<lparr>tree = new_MerkleTree [leaf1, leaf3, leaf2], eligibleUsers = [user1, user3, user2]\<rparr>"

section \<open>Properties of the offline builder\<close>

subsection \<open>Hex strings, buffers and the sorted pair hash\<close>

lemma hex_value_hex_char: "n < 16 \<Longrightarrow> hex_value (hex_char n) = Some n"
  by (auto simp: hex_value_def hex_char_def Let_def)

lemma byte_nibbles: "(of_nat (16 * (unat b div 16) + unat b mod 16) :: byte) = b"
  by simp

lemma unat_byte_div16: "unat (b :: byte) div 16 < 16"
  using unsigned_less [of b, where 'a = nat] by simp

lemma buffer_from_hex_hex_of_bytes: "buffer_from_hex (hex_of_bytes bs) = bs"
proof (induction bs)
  case Nil
  then show ?case by (simp add: hex_of_bytes_def)
next
  case (Cons b bs)
  have "hex_of_bytes (b # bs) = hex_char (unat b div 16) # hex_char (unat b mod 16) # hex_of_bytes bs"
    by (simp add: hex_of_bytes_def)
  then show ?case
    using Cons.IH unat_byte_div16 [of b]
    by (simp add: hex_value_hex_char)
qed

lemma is_hex_digit_hex_of_bytes: "list_all is_hex_digit (hex_of_bytes bs)"
  using unat_byte_div16
  by (induction bs) (simp_all add: hex_of_bytes_def is_hex_digit_def hex_value_hex_char)

lemma bufferify_bufferToHex: "bufferify (bufferToHex b) = b"
  by (simp add: bufferify_def bufferToHex_def isHexString_def strip_0x_def
        is_hex_digit_hex_of_bytes buffer_from_hex_hex_of_bytes)

lemma hashFn_keccak256: "hashFn v = keccak256 v"
  using bufferify_bufferToHex [of "keccak256 v"]
  by (simp add: hashFn_def ethers_keccak256_def bufferToHex_def)

lemma buffer_compare_eq_0: "buffer_compare a b = 0 \<longleftrightarrow> a = b"
  by (induction a b rule: buffer_compare.induct) auto

lemma buffer_compare_sym: "buffer_compare b a = - buffer_compare a b"
  by (induction a b rule: buffer_compare.induct) auto

lemma buffer_compare_range: "buffer_compare a b = - 1 \<or> buffer_compare a b = 0 \<or> buffer_compare a b = 1"
  by (induction a b rule: buffer_compare.induct) auto

lemma hash_sorted_commute: "hash_sorted a b = hash_sorted b a"
  using buffer_compare_sym [of a b] buffer_compare_eq_0 [of a b] buffer_compare_range [of a b]
  by (auto simp: hash_sorted_def sort_pair_def)

lemma verify_step:
  "(if buffer_compare h d = - 1 then hashFn (h @ d) else hashFn (d @ h)) = hash_sorted h d"
  using buffer_compare_eq_0 [of h d] buffer_compare_range [of h d]
  by (auto simp: hash_sorted_def sort_pair_def)

lemma verify_fold_hex: "verify_fold h (map bufferToHex ps) = foldl hash_sorted h ps"
proof (induction ps arbitrary: h)
  case Nil
  then show ?case by simp
next
  case (Cons p ps)
  show ?case
    using verify_step [of h p] Cons.IH
    by (simp add: bufferify_bufferToHex Let_def split: if_splits)
qed

lemma next_layer_length: "length (next_layer ns) = (length ns + 1) div 2"
  by (induction ns rule: next_layer.induct) auto

lemma next_layer_nth:
  "i < length ns \<Longrightarrow>
     next_layer ns ! (i div 2) =
       (if i mod 2 = 1 then hash_sorted (ns ! i) (ns ! (i - 1))
        else if i + 1 < length ns then hash_sorted (ns ! i) (ns ! (i + 1))
        else ns ! i)"
proof (induction ns arbitrary: i rule: next_layer.induct)
  case (1 left right nodes)
  show ?case
  proof (cases i)
    case 0
    then show ?thesis by (simp add: hash_sorted_def)
  next
    case (Suc j)
    show ?thesis
    proof (cases j)
      case 0
      with Suc show ?thesis
        using hash_sorted_commute [of right left] by (simp add: hash_sorted_def)
    next
      case (Suc k)
      with \<open>i = Suc j\<close> have i: "i = Suc (Suc k)" by simp
      with "1.prems" have k: "k < length nodes" by simp
      have "Suc (Suc k) div 2 = Suc (k div 2)" by simp
      moreover have "Suc (Suc k) mod 2 = k mod 2" by presburger
      ultimately show ?thesis
        using "1.IH" [OF k] i by (simp del: next_layer.simps add: next_layer.simps(1))
    qed
  qed
qed simp_all

lemma proof_from_createHashes:
  "i < length ns \<Longrightarrow>
     foldl hash_sorted (ns ! i) (proof_from (createHashes ns) i) = root_of (createHashes ns)"
proof (induction ns arbitrary: i rule: createHashes.induct)
  case (1 nodes)
  show ?case
  proof (cases "1 < length nodes")
    case False
    with "1.prems" have "length nodes = 1" and "i = 0" by simp_all
    then obtain x where "nodes = [x]" by (cases nodes) auto
    moreover have "createHashes [x] = [[x]]" by (subst createHashes.simps) simp
    ultimately show ?thesis using \<open>i = 0\<close> by (simp add: root_of_def)
  next
    case True
    have ch: "createHashes nodes = nodes # createHashes (next_layer nodes)"
      using True by (subst createHashes.simps) simp
    have up: "i div 2 < length (next_layer nodes)"
      using "1.prems" by (simp add: next_layer_length)
    have ne: "createHashes (next_layer nodes) \<noteq> []"
      by (subst createHashes.simps) simp
    have root: "root_of (createHashes nodes) = root_of (createHashes (next_layer nodes))"
      using ne by (simp add: ch root_of_def)
    have IH: "foldl hash_sorted (next_layer nodes ! (i div 2))
                (proof_from (createHashes (next_layer nodes)) (i div 2))
              = root_of (createHashes (next_layer nodes))"
      using "1.IH" [OF True up] .
    have step: "foldl hash_sorted (nodes ! i) (proof_from (createHashes nodes) i)
        = foldl hash_sorted (next_layer nodes ! (i div 2))
            (proof_from (createHashes (next_layer nodes)) (i div 2))"
      using "1.prems" next_layer_nth [OF "1.prems"]
      by (auto simp: ch Let_def)
    show ?thesis using step IH root by simp
  qed
qed

lemma leaf_index_upto:
  "foldl (\<lambda>index i. if buffer_compare leaf (ls ! i) = 0 then int i else index) (- 1) [0..<n] = r
   \<Longrightarrow> n \<le> length ls
   \<Longrightarrow> (r = - 1 \<and> leaf \<notin> set (take n ls)) \<or> (0 \<le> r \<and> nat r < n \<and> ls ! nat r = leaf)"
proof (induction n arbitrary: r)
  case 0
  then show ?case by simp
next
  case (Suc n)
  let ?f = "\<lambda>index i. if buffer_compare leaf (ls ! i) = 0 then int i else index"
  define r0 where "r0 = foldl ?f (- 1) [0..<n]"
  have r: "r = (if buffer_compare leaf (ls ! n) = 0 then int n else r0)"
    using Suc.prems(1) by (auto simp: r0_def)
  have IH: "(r0 = - 1 \<and> leaf \<notin> set (take n ls)) \<or> (0 \<le> r0 \<and> nat r0 < n \<and> ls ! nat r0 = leaf)"
    using Suc.IH [of r0] Suc.prems(2) by (simp add: r0_def)
  have tk: "take (Suc n) ls = take n ls @ [ls ! n]"
    using Suc.prems(2) by (simp add: take_Suc_conv_app_nth)
  show ?case
    using IH r tk by (auto simp: buffer_compare_eq_0 less_Suc_eq)
qed

lemma leaf_index_cases:
  "(leaf_index ls leaf = - 1 \<and> leaf \<notin> set ls) \<or>
   (0 \<le> leaf_index ls leaf \<and> nat (leaf_index ls leaf) < length ls \<and>
    ls ! nat (leaf_index ls leaf) = leaf)"
  using leaf_index_upto [of leaf ls "length ls" "leaf_index ls leaf"]
  by (simp add: leaf_index_def)

lemma root_of_getRoot: "getRoot (new_MerkleTree ls) = root_of (createHashes ls)"
  by (simp add: getRoot_def new_MerkleTree_def)

lemma bufferToHex_not_empty: "bufferToHex b \<noteq> []"
  by (simp add: bufferToHex_def)

lemma MerkleTree_verify_member:
  assumes "leaf \<in> set ls"
  shows "MerkleTree_verify (getHexProof (new_MerkleTree ls) leaf) leaf (getHexRoot (new_MerkleTree ls))"
proof -
  let ?i = "nat (leaf_index ls leaf)"
  have idx: "0 \<le> leaf_index ls leaf" "?i < length ls" "ls ! ?i = leaf"
    using leaf_index_cases [of ls leaf] assms by auto
  have "MerkleTree_getProof (new_MerkleTree ls) leaf = proof_from (createHashes ls) ?i"
    using idx(1) by (simp add: MerkleTree_getProof_def new_MerkleTree_def Let_def)
  then have "verify_fold leaf (getHexProof (new_MerkleTree ls) leaf) = root_of (createHashes ls)"
    using proof_from_createHashes [OF idx(2)] idx(3)
    by (simp add: getHexProof_def verify_fold_hex)
  then show ?thesis
    by (simp add: MerkleTree_verify_def getHexRoot_def bufferToHex_not_empty
          bufferify_bufferToHex root_of_getRoot buffer_compare_eq_0)
qed

lemma MerkleTree_getProof_absent:
  assumes "leaf \<notin> set ls"
  shows "getHexProof (new_MerkleTree ls) leaf = []"
    and "MerkleTree_verify [] leaf (getHexRoot (new_MerkleTree ls)) = (leaf = getRoot (new_MerkleTree ls))"
proof -
  have "nat (leaf_index ls leaf) < length ls \<Longrightarrow> ls ! nat (leaf_index ls leaf) \<in> set ls"
    by simp
  then have "leaf_index ls leaf = - 1"
    using leaf_index_cases [of ls leaf] assms by metis
  then show "getHexProof (new_MerkleTree ls) leaf = []"
    by (simp add: getHexProof_def MerkleTree_getProof_def new_MerkleTree_def Let_def)
  show "MerkleTree_verify [] leaf (getHexRoot (new_MerkleTree ls)) = (leaf = getRoot (new_MerkleTree ls))"
    by (simp add: MerkleTree_verify_def getHexRoot_def bufferToHex_not_empty
          bufferify_bufferToHex buffer_compare_eq_0)
qed

lemma those_map_Some:
  "those (map f xs) = Some ys \<longleftrightarrow> (\<forall>x \<in> set xs. f x \<noteq> None) \<and> ys = map (\<lambda>x. the (f x)) xs"
  by (induction xs arbitrary: ys) (auto split: option.splits)

subsection \<open>Big-endian encodings\<close>

lemma ucast_take_bit_byte: "8 \<le> m \<Longrightarrow> (ucast (take_bit m w :: 'a::len word) :: byte) = ucast w"
  by (rule bit_word_eqI) (auto simp: bit_simps)

lemma be_bytes_take_bit: "8 * n \<le> m \<Longrightarrow> be_bytes n (take_bit m w) = be_bytes n w"
proof (induction n arbitrary: w m)
  case 0
  then show ?case by simp
next
  case (Suc n)
  have "drop_bit 8 (take_bit m w) = take_bit (m - 8) (drop_bit 8 w)"
    by (simp add: drop_bit_take_bit)
  moreover have "8 * n \<le> m - 8" using Suc.prems by simp
  moreover have "8 \<le> m" using Suc.prems by simp
  ultimately show ?case
    using Suc.IH [of "m - 8" "drop_bit 8 w"] by (simp add: ucast_take_bit_byte)
qed

lemma word_of_be_snoc: "word_of_be (bs @ [b]) = push_bit 8 (word_of_be bs) OR ucast b"
  by (simp add: word_of_be_def)

lemma ucast_push_or:
  "8 \<le> LENGTH('a) \<Longrightarrow> (ucast (push_bit 8 (x :: 'a::len word) OR ucast (b :: byte)) :: byte) = b"
  by (rule bit_word_eqI) (auto simp: bit_simps)

lemma drop_push_or:
  "drop_bit 8 (push_bit 8 (x :: 'a::len word) OR ucast (b :: byte)) = take_bit (LENGTH('a) - 8) x"
  by (rule bit_word_eqI) (auto simp: bit_simps dest: bit_imp_le_length)

lemma be_bytes_word_of_be:
  "8 * length bs \<le> LENGTH('a) \<Longrightarrow> be_bytes (length bs) (word_of_be bs :: 'a::len word) = bs"
proof (induction bs rule: rev_induct)
  case Nil
  then show ?case by simp
next
  case (snoc b bs)
  have le: "8 * length bs \<le> LENGTH('a) - 8" using snoc.prems by simp
  have "be_bytes (length bs) (take_bit (LENGTH('a) - 8) (word_of_be bs :: 'a word)) = bs"
    using be_bytes_take_bit [OF le, of "word_of_be bs :: 'a word"] snoc.IH le by simp
  moreover have "8 \<le> LENGTH('a)" using snoc.prems by simp
  ultimately show ?case
    by (simp only: word_of_be_snoc length_append_singleton be_bytes.simps ucast_push_or drop_push_or)
qed

lemma be_bytes_zero: "be_bytes n (0 :: 'a::len word) = replicate n 0"
  by (induction n) (simp_all add: replicate_append_same)

lemma ucast_word_of_int_byte:
  "8 \<le> LENGTH('a) \<Longrightarrow> (ucast (word_of_int v :: 'a::len word) :: byte) = word_of_int (v mod 256)"
  by (rule bit_word_eqI) (auto simp: bit_simps take_bit_eq_mod [where n = 8 and a = v, symmetric, simplified])

lemma take_drop_word_of_int:
  "8 * n + 8 \<le> LENGTH('a) \<Longrightarrow>
     take_bit (8 * n) (drop_bit 8 (word_of_int v :: 'a::len word)) =
     take_bit (8 * n) (word_of_int (v div 256) :: 'a word)"
  by (rule bit_word_eqI) (auto simp: bit_simps drop_bit_eq_div [where n = 8 and a = v, symmetric, simplified])

lemma toBeArray_zero: "toBeArray 0 = []"
  by (subst toBeArray.simps) simp

lemma toBeArray_pos: "0 < v \<Longrightarrow> toBeArray v = toBeArray (v div 256) @ [word_of_int (v mod 256)]"
  by (subst toBeArray.simps) simp

lemma zeroPadValue_toBeArray:
  "0 \<le> v \<Longrightarrow> v < 256 ^ n \<Longrightarrow> 8 * n \<le> LENGTH('a) \<Longrightarrow>
     zeroPadValue (toBeArray v) n = Some (be_bytes n (word_of_int v :: 'a::len word))"
proof (induction n arbitrary: v)
  case 0
  then have "v = 0" by simp
  then show ?case by (simp add: toBeArray_zero zeroPadValue_def)
next
  case (Suc n)
  show ?case
  proof (cases "v = 0")
    case True
    then show ?thesis
      using be_bytes_zero [of "Suc n", where 'a = 'a]
      by (simp add: toBeArray_zero zeroPadValue_def del: be_bytes.simps replicate_Suc)
  next
    case False
    with Suc.prems have pos: "0 < v" by simp
    have "v < 256 * 256 ^ n" using Suc.prems by simp
    then have "v div 256 < 256 ^ n" by linarith
    moreover have "0 \<le> v div 256" using Suc.prems by simp
    ultimately have small: "0 \<le> v div 256" "v div 256 < 256 ^ n" by simp_all
    have len: "8 * n \<le> LENGTH('a)" "8 * n + 8 \<le> LENGTH('a)" "8 \<le> LENGTH('a)"
      using Suc.prems by simp_all
    have IH: "zeroPadValue (toBeArray (v div 256)) n = Some (be_bytes n (word_of_int (v div 256) :: 'a word))"
      using Suc.IH [OF small len(1)] .
    have hi: "be_bytes n (drop_bit 8 (word_of_int v :: 'a word)) = be_bytes n (word_of_int (v div 256) :: 'a word)"
      using be_bytes_take_bit [of n "8 * n" "drop_bit 8 (word_of_int v :: 'a word)"]
            be_bytes_take_bit [of n "8 * n" "word_of_int (v div 256) :: 'a word"]
            take_drop_word_of_int [OF len(2), of v]
      by simp
    show ?thesis
      using IH hi ucast_word_of_int_byte [OF len(3), of v]
      by (auto simp: toBeArray_pos [OF pos] zeroPadValue_def split: if_splits)
  qed
qed

lemma hex_value_to_upper: "hex_value (to_upper c) = hex_value c"
  by (auto simp: hex_value_def to_upper_def Let_def)

lemma hex_value_to_lower: "hex_value (to_lower c) = hex_value c"
  by (auto simp: hex_value_def to_lower_def Let_def)

lemma buffer_from_hex_checksum: "buffer_from_hex (checksum_chars cs hs) = buffer_from_hex cs"
  by (induction cs hs rule: checksum_chars.induct)
     (auto simp: hex_value_to_upper split: option.splits)

lemma buffer_from_hex_lower: "buffer_from_hex (map to_lower cs) = buffer_from_hex cs"
  by (induction cs rule: buffer_from_hex.induct)
     (auto simp: hex_value_to_lower split: option.splits)

lemma buffer_from_hex_length:
  "list_all is_hex_digit cs \<Longrightarrow> length (buffer_from_hex cs) = length cs div 2"
  by (induction cs rule: buffer_from_hex.induct) (auto simp: is_hex_digit_def)

text \<open>The bytes of an accepted address are those of its 40 hex digits.\<close>

lemma getAddress_bytes:
  assumes "getAddress a = Some c"
  shows "buffer_from_hex (drop 2 c) = buffer_from_hex (if take 2 a = ''0x'' then drop 2 a else a)"
    and "length (buffer_from_hex (drop 2 c)) = 20"
proof -
  let ?p = "if take 2 a = ''0x'' then a else ''0x'' @ a"
  have ok: "length (drop 2 ?p) = 40" "list_all is_hex_digit (drop 2 ?p)"
    and c: "c = ?p \<or> c = getChecksumAddress ?p"
    using assms by (auto simp: getAddress_def Let_def split: if_splits)
  have "buffer_from_hex (drop 2 (getChecksumAddress ?p)) = buffer_from_hex (drop 2 ?p)"
    by (simp add: getChecksumAddress_def Let_def buffer_from_hex_checksum buffer_from_hex_lower)
  with c have eq: "buffer_from_hex (drop 2 c) = buffer_from_hex (drop 2 ?p)" by auto
  then show "buffer_from_hex (drop 2 c) = buffer_from_hex (if take 2 a = ''0x'' then drop 2 a else a)"
    by simp
  show "length (buffer_from_hex (drop 2 c)) = 20"
    using buffer_from_hex_length [OF ok(2)] ok(1) eq by simp
qed

subsection \<open>Leaves\<close>

lemma bytes_of_lane_length: "length (bytes_of_lane n x) = n"
  by (induction n arbitrary: x) simp_all

lemma keccak256_length: "length (keccak256 m) = 32"
proof -
  have "length (squeeze s) = 32" for s
    by (cases s) (simp add: bytes_of_lane_length)
  then show ?thesis by (simp add: keccak256_def keccak256_int_def)
qed

lemma buffer_from_hex_ethers_keccak256: "buffer_from_hex (drop 2 (ethers_keccak256 m)) = keccak256 m"
  by (simp add: ethers_keccak256_def buffer_from_hex_hex_of_bytes)

lemma toBeArray_bound: "0 \<le> v \<Longrightarrow> v < 256 ^ length (toBeArray v)"
proof (induction v rule: toBeArray.induct)
  case (1 v)
  show ?case
  proof (cases "v \<le> 0")
    case True
    with "1.prems" show ?thesis by (simp add: toBeArray_zero)
  next
    case False
    then have pos: "0 < v" by simp
    have "v div 256 < 256 ^ length (toBeArray (v div 256))"
      using "1.IH" [OF False] pos by simp
    then have "v < 256 * 256 ^ length (toBeArray (v div 256))" by linarith
    then show ?thesis by (simp add: toBeArray_pos [OF pos])
  qed
qed

lemma zeroPadValue_toBeArray_None:
  assumes "0 \<le> v" and "\<not> v < 256 ^ n"
  shows "zeroPadValue (toBeArray v) n = None"
proof -
  have "\<not> length (toBeArray v) \<le> n"
  proof
    assume "length (toBeArray v) \<le> n"
    then have "(256 :: int) ^ length (toBeArray v) \<le> 256 ^ n"
      by (simp add: power_increasing)
    with toBeArray_bound [OF assms(1)] assms(2) show False by simp
  qed
  then show ?thesis by (simp add: zeroPadValue_def)
qed

lemma solidityPacked_eq:
  "solidityPacked a v =
     (case getAddress a of
        None \<Rightarrow> None
      | Some c \<Rightarrow>
          if 0 \<le> v \<and> v < 2 ^ 256
          then Some (buffer_from_hex (drop 2 c) @ be_bytes 32 (word_of_int v :: uint256))
          else None)"
proof -
  have "zeroPadValue (toBeArray v) 32 = Some (be_bytes 32 (word_of_int v :: uint256))"
    if "0 \<le> v" "v < 2 ^ 256"
    using zeroPadValue_toBeArray [of v 32, where 'a = 256] that by simp
  moreover have "zeroPadValue (toBeArray v) 32 = None" if "0 \<le> v" "\<not> v < 2 ^ 256"
    using zeroPadValue_toBeArray_None [of v 32] that by simp
  ultimately show ?thesis
    by (auto simp: solidityPacked_def split: option.splits)
qed

lemma createLeaf_eq:
  "createLeaf a amt =
     (case parseEther amt of
        None \<Rightarrow> None
      | Some v \<Rightarrow>
          (case getAddress a of
             None \<Rightarrow> None
           | Some c \<Rightarrow>
               if 0 \<le> v \<and> v < 2 ^ 256
               then Some (keccak256 (buffer_from_hex (drop 2 c) @ be_bytes 32 (word_of_int v :: uint256)))
               else None))"
proof (cases "parseEther amt")
  case None
  then show ?thesis by (simp add: createLeaf_def)
next
  case (Some v)
  show ?thesis
  proof (cases "getAddress a")
    case None
    with Some show ?thesis
      by (simp add: createLeaf_def solidityPackedKeccak256_def solidityPacked_eq)
  next
    case c: (Some c)
    with Some show ?thesis
      by (simp add: createLeaf_def solidityPackedKeccak256_def solidityPacked_eq
            buffer_from_hex_ethers_keccak256)
  qed
qed

lemma createLeaf_defined:
  assumes "createLeaf a amt = Some leaf"
  shows "\<exists>sender (wei :: uint256). address_value a = Some sender \<and> parseEther amt = Some (uint wei)"
proof -
  obtain v c where v: "parseEther amt = Some v" "getAddress a = Some c" "0 \<le> v" "v < 2 ^ 256"
    using assms by (auto simp: createLeaf_eq split: option.splits if_splits)
  have "uint (word_of_int v :: uint256) = v"
    using v(3,4) by (simp add: uint_word_of_int take_bit_int_eq_self)
  then have "parseEther amt = Some (uint (word_of_int v :: uint256))"
    using v(1) by simp
  moreover have "address_value a = Some (word_of_be (buffer_from_hex (drop 2 c)))"
    using v(2) by (simp add: address_value_def)
  ultimately show ?thesis by blast
qed

lemma new_AirdropMerkleTree_Some:
  "new_AirdropMerkleTree users = Some t \<longleftrightarrow>
     (\<forall>u \<in> set users. createLeaf (address u) (amount u) \<noteq> None) \<and>
     t = \<lparr>tree = new_MerkleTree (map (\<lambda>u. the (createLeaf (address u) (amount u))) users),
          eligibleUsers = users\<rparr>"
  by (auto simp: new_AirdropMerkleTree_def generateMerkleTree_def those_map_Some)

lemma createHashes_small: "createHashes [] = [[]]" "createHashes [x] = [[x]]"
  by (subst createHashes.simps, simp)+

lemma next_layer_append:
  "even (length xs) \<Longrightarrow> next_layer (xs @ zs) = next_layer xs @ next_layer zs"
  by (induction xs rule: next_layer.induct) simp_all

lemma root_of_swap:
  assumes "even (length xs)"
  shows "root_of (createHashes (xs @ [a, b] @ ys)) = root_of (createHashes (xs @ [b, a] @ ys))"
proof -
  have nl: "next_layer (xs @ [a, b] @ ys) = next_layer (xs @ [b, a] @ ys)"
    using assms hash_sorted_commute [of a b] by (simp add: next_layer_append)
  have ne: "createHashes ns \<noteq> []" for ns
    by (subst createHashes.simps) simp
  have "root_of (createHashes ns) = root_of (createHashes (next_layer ns))" if "1 < length ns" for ns
    using that ne [of "next_layer ns"]
    by (subst createHashes.simps) (simp add: root_of_def)
  from this [of "xs @ [a, b] @ ys"] this [of "xs @ [b, a] @ ys"] nl show ?thesis by simp
qed

lemma root_of_step:
  assumes "1 < length ns"
  shows "root_of (createHashes ns) = root_of (createHashes (next_layer ns))"
proof -
  have "createHashes (next_layer ns) \<noteq> []"
    by (subst createHashes.simps) simp
  then show ?thesis
    using assms by (subst createHashes.simps) (simp add: root_of_def)
qed

lemma root_of_swap_blocks:
  assumes "length A = 2 ^ k" and "length B = 2 ^ k" and "2 ^ Suc k dvd length xs"
  shows "root_of (createHashes (xs @ A @ B @ ys)) = root_of (createHashes (xs @ B @ A @ ys))"
  using assms
proof (induction k arbitrary: xs A B ys)
  case 0
  obtain a where A: "A = [a]" using "0.prems"(1) by (cases A) auto
  obtain b where B: "B = [b]" using "0.prems"(2) by (cases B) auto
  have "even (length xs)" using "0.prems"(3) by simp
  then show ?case
    using root_of_swap [of xs a b ys] by (simp add: A B)
next
  case (Suc k)
  have ev: "even (length xs)" "even (length A)" "even (length B)"
    using Suc.prems by (auto elim: dvdE)
  have nl: "next_layer (xs @ A @ B @ ys) = next_layer xs @ next_layer A @ next_layer B @ next_layer ys"
    "next_layer (xs @ B @ A @ ys) = next_layer xs @ next_layer B @ next_layer A @ next_layer ys"
    using ev by (simp_all add: next_layer_append)
  have lenA: "length (next_layer A) = 2 ^ k" and lenB: "length (next_layer B) = 2 ^ k"
    using Suc.prems(1,2) by (simp_all add: next_layer_length)
  obtain m where m: "length xs = 2 ^ Suc (Suc k) * m"
    using Suc.prems(3) by (auto elim: dvdE)
  have "length (next_layer xs) = 2 ^ Suc k * m"
    by (simp add: next_layer_length m)
  then have dv: "2 ^ Suc k dvd length (next_layer xs)" by simp
  have p: "(1 :: nat) \<le> 2 ^ k" by simp
  have "length A = 2 * 2 ^ k" using Suc.prems(1) by simp
  with p have "1 < length A" by linarith
  then have big: "1 < length (xs @ A @ B @ ys)" "1 < length (xs @ B @ A @ ys)"
    by simp_all
  show ?case
    using root_of_step [OF big(1)] root_of_step [OF big(2)]
          Suc.IH [OF lenA lenB dv, of "next_layer ys"]
    by (simp add: nl)
qed

lemma hash_sorted_digest:
  "length a = 32 \<Longrightarrow> length b = 32 \<Longrightarrow>
     \<exists>m. length m = 64 \<and> hash_sorted a b = keccak256 m"
proof -
  assume len: "length a = 32" "length b = 32"
  have "length (concat (sort_pair a b)) = 64"
    using len by (simp add: sort_pair_def)
  then show ?thesis
    by (auto simp: hash_sorted_def hashFn_keccak256)
qed

lemma next_layer_lengths:
  "\<forall>n \<in> set ns. length n = 32 \<Longrightarrow> \<forall>n \<in> set (next_layer ns). length n = 32"
  by (induction ns rule: next_layer.induct)
     (simp_all add: hash_sorted_def hashFn_keccak256 keccak256_length)

lemma root_is_digest:
  "1 < length ns \<Longrightarrow> \<forall>n \<in> set ns. length n = 32 \<Longrightarrow>
     \<exists>m. length m = 64 \<and> root_of (createHashes ns) = keccak256 m"
proof (induction ns rule: createHashes.induct)
  case (1 nodes)
  have step: "root_of (createHashes nodes) = root_of (createHashes (next_layer nodes))"
    using root_of_step [OF "1.prems"(1)] .
  show ?case
  proof (cases "1 < length (next_layer nodes)")
    case True
    then show ?thesis
      using "1.IH" [OF "1.prems"(1) True next_layer_lengths [OF "1.prems"(2)]] step by simp
  next
    case False
    with "1.prems"(1) have "length nodes = 2"
      by (simp add: next_layer_length)
    then obtain a b where ab: "nodes = [a, b]"
      by (cases nodes; cases "tl nodes") auto
    with "1.prems"(2) have "length a = 32" "length b = 32" by simp_all
    then obtain m where "length m = 64" "hash_sorted a b = keccak256 m"
      using hash_sorted_digest by blast
    then show ?thesis
      using step by (auto simp: ab createHashes_small root_of_def)
  qed
qed

lemma createLeaf_digest:
  assumes "createLeaf a amt = Some leaf"
  shows "\<exists>m. length m = 52 \<and> leaf = keccak256 m"
proof -
  obtain v c where v: "getAddress a = Some c"
    and leaf: "leaf = keccak256 (buffer_from_hex (drop 2 c) @ be_bytes 32 (word_of_int v :: uint256))"
    using assms by (auto simp: createLeaf_eq split: option.splits if_splits)
  have "length (be_bytes n w) = n" for n and w :: uint256
    by (induction n arbitrary: w) simp_all
  then have "length (buffer_from_hex (drop 2 c) @ be_bytes 32 (word_of_int v :: uint256)) = 52"
    using getAddress_bytes(2) [OF v] by simp
  then show ?thesis using leaf by blast
qed

subsection \<open>The worked example\<close>

text \<open>The digest of the empty string, as a check of the hash function against its
  published value, and the evaluation of the builder on the three example users.\<close>

lemma keccak256_empty:
  "bufferToHex (keccak256 []) = ''0xc5d2460186f7233c927e7db2dcc703c0e500b653ca82273b7bfad8045d85a470''"
  by code_simp

lemma getAddress_lower_case:
  assumes "take 2 a = ''0x''" and "length (drop 2 a) = 40" and "list_all is_hex_digit (drop 2 a)"
    and "\<not> list_ex is_upper_hex a"
  shows "getAddress a = Some (getChecksumAddress a)"
  using assms by (simp add: getAddress_def)

lemma createLeaf_lower_case:
  assumes "take 2 a = ''0x'' \<and> length (drop 2 a) = 40 \<and> list_all is_hex_digit (drop 2 a) \<and>
           \<not> list_ex is_upper_hex a"
    and "parseEther amt = Some v" and "0 \<le> v" and "v < 2 ^ 256"
  shows "createLeaf a amt =
           Some (keccak256 (buffer_from_hex (drop 2 a) @ be_bytes 32 (word_of_int v :: uint256)))"
proof -
  have g: "getAddress a = Some (getChecksumAddress a)"
    using assms(1) by (simp add: getAddress_lower_case)
  have "buffer_from_hex (drop 2 (getChecksumAddress a)) = buffer_from_hex (drop 2 a)"
    using getAddress_bytes(1) [OF g] assms(1) by simp
  then show ?thesis
    using g assms(2-4) by (simp add: createLeaf_eq)
qed

lemma users_well_formed:
  "take 2 (address user1) = ''0x'' \<and> length (drop 2 (address user1)) = 40 \<and>
     list_all is_hex_digit (drop 2 (address user1)) \<and> \<not> list_ex is_upper_hex (address user1)"
  "take 2 (address user2) = ''0x'' \<and> length (drop 2 (address user2)) = 40 \<and>
     list_all is_hex_digit (drop 2 (address user2)) \<and> \<not> list_ex is_upper_hex (address user2)"
  "take 2 (address user3) = ''0x'' \<and> length (drop 2 (address user3)) = 40 \<and>
     list_all is_hex_digit (drop 2 (address user3)) \<and> \<not> list_ex is_upper_hex (address user3)"
  by code_simp+

lemma users_amounts:
  "parseEther (amount user1) = Some 2000000000000000000000"
  "parseEther (amount user2) = Some 750000000000000000000"
  "parseEther (amount user3) = Some 1500000000000000000000"
  by code_simp+

lemma keccak256_user1:
  "keccak256 (buffer_from_hex (drop 2 (address user1)) @ be_bytes 32 (2000000000000000000000 :: uint256)) = leaf1"
  by code_simp

lemma keccak256_user2:
  "keccak256 (buffer_from_hex (drop 2 (address user2)) @ be_bytes 32 (750000000000000000000 :: uint256)) = leaf2"
  by code_simp

lemma keccak256_user3:
  "keccak256 (buffer_from_hex (drop 2 (address user3)) @ be_bytes 32 (1500000000000000000000 :: uint256)) = leaf3"
  by code_simp

lemma createLeaf_users:
  "createLeaf (address user1) (amount user1) = Some leaf1"
  "createLeaf (address user2) (amount user2) = Some leaf2"
  "createLeaf (address user3) (amount user3) = Some leaf3"
  using createLeaf_lower_case [OF users_well_formed(1) users_amounts(1)]
        createLeaf_lower_case [OF users_well_formed(2) users_amounts(2)]
        createLeaf_lower_case [OF users_well_formed(3) users_amounts(3)]
  by (simp_all add: keccak256_user1 keccak256_user2 keccak256_user3)

lemma hash_sorted_leaf1_leaf2: "hash_sorted leaf1 leaf2 = node12"
  by code_simp

lemma hash_sorted_leaf1_leaf3: "hash_sorted leaf1 leaf3 = node13"
  by code_simp

lemma hash_sorted_node12_leaf3: "hash_sorted node12 leaf3 = root123"
  by code_simp

lemma hash_sorted_node13_leaf2: "hash_sorted node13 leaf2 = root132"
  by code_simp

lemma example_hex:
  "bufferToHex node12 = ''0xa14cea480189f68b30e313fdb0565c48e08062c4cdf332364bcac00e6ac04a59''"
  "bufferToHex root123 = ''0x89a4093e1b5b4f589b6318aaeaa84ea242a97797d6155706d2261a85d6c83452''"
  "bufferToHex root132 = ''0xf5186b805add3584132f5c34245749081d5c56c814d4436a771b178b566b4cb3''"
  by code_simp+

lemma example_distinct:
  "leaf3 \<noteq> leaf1" "leaf3 \<noteq> leaf2" "leaf3 \<noteq> node12" "leaf1 \<noteq> leaf2"
  by code_simp+

lemma example_trees:
  "new_AirdropMerkleTree [user1, user2] = Some tree12"
  "new_AirdropMerkleTree [user1, user2, user3] = Some tree123"
  "new_AirdropMerkleTree [user1, user3, user2] = Some tree132"
  by (simp_all add: new_AirdropMerkleTree_Some createLeaf_users tree12_def tree123_def tree132_def)

lemma example_layers:
  "createHashes [leaf1, leaf2] = [[leaf1, leaf2], [node12]]"
  "createHashes [leaf1, leaf2, leaf3] = [[leaf1, leaf2, leaf3], [node12, leaf3], [root123]]"
  "createHashes [leaf1, leaf3, leaf2] = [[leaf1, leaf3, leaf2], [node13, leaf2], [root132]]"
  by (simp_all add: createHashes.simps [of "_ # _ # _"] createHashes.simps [of "[_]"]
        hash_sorted_leaf1_leaf2 hash_sorted_leaf1_leaf3 hash_sorted_node12_leaf3
        hash_sorted_node13_leaf2)

lemma example_roots:
  "getMerkleRoot tree12 = ''0xa14cea480189f68b30e313fdb0565c48e08062c4cdf332364bcac00e6ac04a59''"
  "getMerkleRoot tree123 = ''0x89a4093e1b5b4f589b6318aaeaa84ea242a97797d6155706d2261a85d6c83452''"
  "getMerkleRoot tree132 = ''0xf5186b805add3584132f5c34245749081d5c56c814d4436a771b178b566b4cb3''"
  by (simp_all add: getMerkleRoot_def getHexRoot_def tree12_def tree123_def tree132_def
        root_of_getRoot example_layers root_of_def example_hex)

lemma leaf_index_leaf3: "leaf_index [leaf1, leaf2, leaf3] leaf3 = 2"
  using example_distinct
  by (simp add: leaf_index_def buffer_compare_eq_0 upt_conv_Cons)

lemma address_user1_value:
  "word_of_be (buffer_from_hex (drop 2 (address user1))) = (0x2546bcd3c84621e976d8185a91a922ae77ecec30 :: address)"
  by code_simp

subsection \<open>The leaf encoding\<close>

text \<open>
  C1. Let the address string stand for the account \<open>sender\<close>, and let \<open>parseEther\<close> of the
  amount string be the integer value of the on-chain amount \<open>wei\<close>. Then \<open>createLeaf\<close> of the
  builder returns exactly the 32 bytes of the leaf that \<open>claimTokens\<close> recomputes,
  \<^verbatim>\<open>keccak256(abi.encodePacked(msg.sender, amount))\<close>, when \<open>sender\<close> calls it with \<open>wei\<close>. (Lemma
  \<open>createLeaf_defined\<close> is the converse: whenever \<open>createLeaf\<close> returns, the address string
  stands for an account and the parsed amount is the value of a \<^verbatim>\<open>uint256\<close>.)
\<close>

theorem createLeaf_is_onchain_leaf:
  assumes "address_value a = Some sender" and "parseEther amt = Some (uint wei)"
  shows "createLeaf a amt = Some (be_bytes 32 (keccak256_sol (encodePacked sender wei)))"
proof -
  obtain c where c: "getAddress a = Some c" and s: "sender = word_of_be (buffer_from_hex (drop 2 c))"
    using assms(1) by (auto simp: address_value_def)
  have len: "length (buffer_from_hex (drop 2 c)) = 20"
    using getAddress_bytes(2) [OF c] .
  have addr: "be_bytes 20 sender = buffer_from_hex (drop 2 c)"
    using be_bytes_word_of_be [of "buffer_from_hex (drop 2 c)", where 'a = 160] len s by simp
  have rng: "0 \<le> uint wei" "uint wei < 2 ^ 256"
    using uint_bounded [of wei] by simp_all
  have leaf: "createLeaf a amt = Some (keccak256 (encodePacked sender wei))"
    using c assms(2) rng addr by (simp add: createLeaf_eq encodePacked_def)
  have "be_bytes 32 (word_of_be (keccak256 m) :: bytes32) = keccak256 m" for m
    using be_bytes_word_of_be [of "keccak256 m", where 'a = 256] by (simp add: keccak256_length)
  then show ?thesis
    by (simp add: leaf keccak256_sol_def)
qed

theorem createLeaf_is_onchain_leaf_witness:
  "address_value (address user1) = Some 0x2546bcd3c84621e976d8185a91a922ae77ecec30 \<and>
   parseEther (amount user1) = Some (uint (2000000000000000000000 :: uint256)) \<and>
   createLeaf (address user1) (amount user1) =
     Some (be_bytes 32 (keccak256_sol
       (encodePacked 0x2546bcd3c84621e976d8185a91a922ae77ecec30 2000000000000000000000)))"
proof -
  have g: "getAddress (address user1) = Some (getChecksumAddress (address user1))"
    using users_well_formed(1) by (simp add: getAddress_lower_case)
  have a: "address_value (address user1) = Some 0x2546bcd3c84621e976d8185a91a922ae77ecec30"
    using getAddress_bytes(1) [OF g] users_well_formed(1)
    by (simp add: address_value_def g address_user1_value)
  have w: "parseEther (amount user1) = Some (uint (2000000000000000000000 :: uint256))"
    by (simp add: users_amounts)
  show ?thesis
    using createLeaf_is_onchain_leaf [OF a w] a w by simp
qed

subsection \<open>Proofs of members and of absent leaves\<close>

text \<open>
  C2. For every list of users from which the constructor builds a tree, and every user
  of that list, \<open>getProof\<close> for the user's address and amount returns a proof, and
  \<open>verifyProof\<close> of that address, amount and proof returns true.
\<close>

theorem issued_proof_verifies:
  assumes "new_AirdropMerkleTree users = Some t" and "user \<in> set users"
  shows "\<exists>p. getProof t (address user) (amount user) = Some p \<and>
             verifyProof t (address user) (amount user) p = Some True"
proof -
  let ?ls = "map (\<lambda>u. the (createLeaf (address u) (amount u))) users"
  have t: "tree t = new_MerkleTree ?ls"
    and ok: "\<forall>u \<in> set users. createLeaf (address u) (amount u) \<noteq> None"
    using assms(1) by (simp_all add: new_AirdropMerkleTree_Some)
  obtain leaf where leaf: "createLeaf (address user) (amount user) = Some leaf"
    using ok assms(2) by auto
  have "leaf \<in> set ?ls"
    using assms(2) leaf by (force simp: image_iff)
  then have "MerkleTree_verify (getHexProof (tree t) leaf) leaf (getMerkleRoot t)"
    using MerkleTree_verify_member [of leaf ?ls] by (simp add: t getMerkleRoot_def)
  then show ?thesis
    by (simp add: getProof_def verifyProof_def leaf)
qed

theorem issued_proof_verifies_witness:
  "new_AirdropMerkleTree [user1, user2, user3] = Some tree123 \<and>
   user3 \<in> set [user1, user2, user3] \<and>
   getProof tree123 (address user3) (amount user3) =
     Some [''0xa14cea480189f68b30e313fdb0565c48e08062c4cdf332364bcac00e6ac04a59''] \<and>
   verifyProof tree123 (address user3) (amount user3)
     [''0xa14cea480189f68b30e313fdb0565c48e08062c4cdf332364bcac00e6ac04a59''] = Some True"
proof -
  have p: "getProof tree123 (address user3) (amount user3) =
      Some [''0xa14cea480189f68b30e313fdb0565c48e08062c4cdf332364bcac00e6ac04a59'']"
    by (simp add: getProof_def createLeaf_users getHexProof_def MerkleTree_getProof_def
          tree123_def new_MerkleTree_def leaf_index_leaf3 example_layers example_hex Let_def)
  show ?thesis
    using issued_proof_verifies [of "[user1, user2, user3]" tree123 user3] p
    by (simp add: example_trees)
qed

text \<open>
  Absent leaves. For a tree built from a list of users and an address and amount whose
  leaf is not among the leaves of the tree, \<open>getProof\<close> returns the empty proof, and
  \<open>verifyProof\<close> of the empty proof returns whether the leaf is equal to the root. For a
  tree of fewer than two leaves it returns false. For a tree of two or more leaves the
  leaf is the Keccak-256 digest of a message of 52 bytes (the packed address and amount)
  and the root that of a message of 64 bytes (its two children), so the verification
  succeeds exactly when these two messages collide. That \<open>verifyProof\<close> returns false for
  every such tree, as C8 has it, is the statement that Keccak-256 has no such collision;
  it is neither proved nor refuted here.
\<close>

lemma absent_leaf_has_empty_proof:
  assumes "new_AirdropMerkleTree users = Some t"
    and "createLeaf a amt = Some leaf"
    and "leaf \<notin> set (leaves (tree t))"
  shows "getProof t a amt = Some [] \<and>
         verifyProof t a amt [] = Some (leaf = getRoot (tree t)) \<and>
         (length users < 2 \<longrightarrow> verifyProof t a amt [] = Some False) \<and>
         (2 \<le> length users \<longrightarrow>
            (\<exists>x y. length x = 52 \<and> length y = 64 \<and>
                   leaf = keccak256 x \<and> getRoot (tree t) = keccak256 y))"
proof -
  let ?ls = "map (\<lambda>u. the (createLeaf (address u) (amount u))) users"
  have t: "tree t = new_MerkleTree ?ls"
    and ok: "\<forall>u \<in> set users. createLeaf (address u) (amount u) \<noteq> None"
    using assms(1) by (simp_all add: new_AirdropMerkleTree_Some)
  have absent: "leaf \<notin> set ?ls"
    using assms(3) by (simp add: t new_MerkleTree_def)
  have p: "getProof t a amt = Some []"
    using MerkleTree_getProof_absent(1) [OF absent] by (simp add: getProof_def assms(2) t)
  have v: "verifyProof t a amt [] = Some (leaf = getRoot (tree t))"
    using MerkleTree_getProof_absent(2) [OF absent]
    by (simp add: verifyProof_def assms(2) t getMerkleRoot_def)
  have small: "leaf \<noteq> getRoot (tree t)" if "length users < 2"
  proof (cases users)
    case Nil
    have "length leaf = 32"
      using createLeaf_digest [OF assms(2)] by (auto simp: keccak256_length)
    then show ?thesis
      using Nil by (auto simp: t root_of_getRoot createHashes_small root_of_def)
  next
    case (Cons u us)
    with that have "us = []" by simp
    with Cons absent show ?thesis
      by (auto simp: t root_of_getRoot createHashes_small root_of_def)
  qed
  have large: "\<exists>x y. length x = 52 \<and> length y = 64 \<and>
                 leaf = keccak256 x \<and> getRoot (tree t) = keccak256 y"
    if "2 \<le> length users"
  proof -
    have "\<forall>n \<in> set ?ls. length n = 32"
    proof
      fix n assume "n \<in> set ?ls"
      then obtain u where "u \<in> set users" "n = the (createLeaf (address u) (amount u))" by auto
      with ok obtain l where "createLeaf (address u) (amount u) = Some l" "n = l" by auto
      then show "length n = 32"
        using createLeaf_digest [of "address u" "amount u" l] by (auto simp: keccak256_length)
    qed
    moreover have "1 < length ?ls" using that by simp
    ultimately obtain y where y: "length y = 64" "root_of (createHashes ?ls) = keccak256 y"
      using root_is_digest by blast
    obtain x where x: "length x = 52" "leaf = keccak256 x"
      using createLeaf_digest [OF assms(2)] by blast
    have "getRoot (tree t) = keccak256 y"
      using y(2) by (simp add: t root_of_getRoot)
    with x y(1) show ?thesis by blast
  qed
  show ?thesis
    using p v small large by auto
qed

lemma absent_leaf_example:
  "new_AirdropMerkleTree [user1, user2] = Some tree12 \<and>
   createLeaf (address user3) (amount user3) = Some leaf3 \<and>
   leaf3 \<notin> set (leaves (tree tree12)) \<and>
   leaf3 \<noteq> getRoot (tree tree12) \<and>
   getProof tree12 (address user3) (amount user3) = Some [] \<and>
   verifyProof tree12 (address user3) (amount user3) [] = Some False"
proof -
  have l: "leaf3 \<notin> set (leaves (tree tree12))"
    using example_distinct by (simp add: tree12_def new_MerkleTree_def)
  have r: "leaf3 \<noteq> getRoot (tree tree12)"
    using example_distinct
    by (simp add: tree12_def root_of_getRoot example_layers root_of_def)
  show ?thesis
    using absent_leaf_has_empty_proof [OF example_trees(1) createLeaf_users(3) l] l r
    by (simp add: example_trees createLeaf_users)
qed

subsection \<open>The root and the order of the entries\<close>

text \<open>
  C3, as the code has it. The root is a function of the ordered list of entries. It does
  not change when two sibling subtrees are exchanged: for every \<open>k\<close>, two adjacent blocks
  of \<open>2^k\<close> entries, the first starting at a position divisible by \<open>2^(k+1)\<close>, can be
  swapped without changing the root. For \<open>k = 0\<close> these are the two entries of a sibling
  pair, so a list of two entries and its reversal have the same root.
\<close>

theorem root_unchanged_by_subtree_swap:
  assumes "length us = 2 ^ k" and "length vs = 2 ^ k" and "2 ^ Suc k dvd length xs"
    and "new_AirdropMerkleTree (xs @ us @ vs @ ys) = Some t"
  shows "\<exists>t'. new_AirdropMerkleTree (xs @ vs @ us @ ys) = Some t' \<and>
              getMerkleRoot t' = getMerkleRoot t"
proof -
  let ?f = "\<lambda>u. the (createLeaf (address u) (amount u))"
  let ?t' = "\<lparr>tree = new_MerkleTree (map ?f (xs @ vs @ us @ ys)),
              eligibleUsers = xs @ vs @ us @ ys\<rparr>"
  have t: "tree t = new_MerkleTree (map ?f (xs @ us @ vs @ ys))"
    and ok: "\<forall>w \<in> set (xs @ us @ vs @ ys). createLeaf (address w) (amount w) \<noteq> None"
    using assms(4) by (simp_all add: new_AirdropMerkleTree_Some)
  have "new_AirdropMerkleTree (xs @ vs @ us @ ys) = Some ?t'"
    using ok by (auto simp: new_AirdropMerkleTree_Some)
  moreover have "getMerkleRoot ?t' = getMerkleRoot t"
    using root_of_swap_blocks [of "map ?f vs" k "map ?f us" "map ?f xs" "map ?f ys"] assms(1-3)
    by (simp add: getMerkleRoot_def getHexRoot_def root_of_getRoot t)
  ultimately show ?thesis by blast
qed

theorem root_unchanged_by_subtree_swap_witness:
  "length [user1] = 2 ^ 0 \<and> length [user2] = 2 ^ 0 \<and> 2 ^ Suc 0 dvd length ([] :: EligibleUser list) \<and>
   new_AirdropMerkleTree ([] @ [user1] @ [user2] @ [user3]) = Some tree123 \<and>
   map_option getMerkleRoot (new_AirdropMerkleTree ([] @ [user2] @ [user1] @ [user3])) =
     Some (getMerkleRoot tree123)"
  using root_unchanged_by_subtree_swap [of "[user1]" 0 "[user2]" "[]" "[user3]" tree123]
  by (auto simp: example_trees)

text \<open>
  C3 as stated fails: the builder passes the leaves to the tree in list order and asks
  only for sorted pairs, so which leaves become siblings depends on the order. The lists
  \<open>[user1, user2, user3]\<close> and \<open>[user1, user3, user2]\<close> hold the same entries and have
  different roots.
\<close>

theorem root_depends_on_entry_order:
  "map_option getMerkleRoot (new_AirdropMerkleTree [user1, user2, user3]) =
     Some ''0x89a4093e1b5b4f589b6318aaeaa84ea242a97797d6155706d2261a85d6c83452'' \<and>
   map_option getMerkleRoot (new_AirdropMerkleTree [user1, user3, user2]) =
     Some ''0xf5186b805add3584132f5c34245749081d5c56c814d4436a771b178b566b4cb3'' \<and>
   ''0x89a4093e1b5b4f589b6318aaeaa84ea242a97797d6155706d2261a85d6c83452'' \<noteq>
   ''0xf5186b805add3584132f5c34245749081d5c56c814d4436a771b178b566b4cb3'' \<and>
   mset [user1, user3, user2] = mset [user1, user2, user3]"
  by (simp add: example_trees example_roots)

section \<open>Properties of the contract\<close>

subsection \<open>The worked deployment\<close>

lemma example_addresses [simp]:
  "alice \<noteq> pool" "pool \<noteq> alice" "alice \<noteq> 0" "pool \<noteq> 0" "deployer \<noteq> alice"
  "alice \<noteq> deployer" "deployer \<noteq> 0" "deployer \<noteq> pool" "pool \<noteq> deployer"
  by (simp_all add: alice_def pool_def deployer_def)

lemma deployed_constructed:
  "constructor pool deployer 10 funded 0x70 (keccak256_sol (encodePacked alice 5)) 100 10
     = Inr deployed"
  by (simp add: constructor_def deployed_def)

lemma deployed_claim: "claimTokens deployed alice 50 5 [] = Inr claimed"
  by (auto simp add: claimTokens_def deployed_def claimed_def MerkleProof_verify_def checked_add_def
        safeTransfer_def funded_def Let_def fun_eq_iff)

lemma claimed_update: "updateAirdrop claimed deployer 60 0 200 1 = Inr lowered"
  by (simp add: updateAirdrop_def claimed_def deployed_def lowered_def)

lemma claimed_recommit:
  "updateAirdrop claimed deployer 60 (keccak256_sol (encodePacked deployer max_uint256)) 100 10
     = Inr recommitted"
  by (simp add: updateAirdrop_def claimed_def deployed_def recommitted_def)

lemma reachable_claimed: "reachable claimed"
  by (rule reachable.step [OF reachable.deploy [OF deployed_constructed],
        of "(alice, 50, ClaimTokens 5 [])"])
     (simp add: deployed_claim)

lemma reachable_lowered: "reachable lowered"
  by (rule reachable.step [OF reachable_claimed, of "(deployer, 60, UpdateAirdrop 0 200 1)"])
     (simp add: claimed_update)

lemma run_example:
  "run deployed [(alice, 50, ClaimTokens 5 []), (deployer, 60, UpdateAirdrop 0 200 1)] = lowered"
  by (simp add: run_def transact_def deployed_claim claimed_update)

lemma uint_uint256_bound: "uint (w :: uint256) < 2 ^ 256"
  using uint_bounded [of w] by simp

subsection \<open>The checks of \<open>claimTokens\<close>\<close>

text \<open>
  C4, as the code has it. If the window has elapsed, or the caller has already claimed,
  or the amt is zero, or the proof does not recompute the stored root, or
  \<open>totalClaimed + amt\<close> exceeds \<open>totalClaimable\<close>, then the call reverts and the
  transaction leaves every state variable unchanged. The error is that of the first check
  that fails, in the order of the source: \<open>ClaimPeriodEnded\<close>, \<open>AlreadyClaimed\<close>,
  \<open>InvalidAmount\<close>, \<open>InvalidProof\<close>, \<open>InsufficientTokens\<close>; but when \<open>totalClaimed + amt\<close>
  does not fit in 256 bits, the cap check itself reverts with the arithmetic panic
  \<open>0x11\<close>, not with \<open>InsufficientTokens\<close>.
\<close>

theorem claimTokens_reverts_with_first_failing_check:
  assumes "now > claimPeriodEnd s \<or> hasClaimed s sender \<or> amt = 0 \<or>
           \<not> MerkleProof_verify mp (merkleRoot s) (keccak256_sol (encodePacked sender amt)) \<or>
           uint (totalClaimed s) + uint amt > uint (totalClaimable s)"
  shows "transact s (sender, now, ClaimTokens amt mp) =
     (s, Some (if now > claimPeriodEnd s then ClaimPeriodEnded
               else if hasClaimed s sender then AlreadyClaimed
               else if amt = 0 then InvalidAmount
               else if \<not> MerkleProof_verify mp (merkleRoot s) (keccak256_sol (encodePacked sender amt))
                 then InvalidProof
               else if uint (totalClaimed s) + uint amt < 2 ^ 256 then InsufficientTokens
               else Panic 0x11))"
  using assms uint_uint256_bound [of "totalClaimable s"]
  by (auto simp: transact_def claimTokens_def checked_add_def word_less_def uint_word_ariths)

theorem claimTokens_reverts_with_first_failing_check_witness:
  "hasClaimed claimed alice \<and>
   transact claimed (alice, 50, ClaimTokens 5 []) = (claimed, Some AlreadyClaimed)"
  using claimTokens_reverts_with_first_failing_check
          [where s = claimed and sender = alice and now = 50 and amt = 5 and mp = "[]"]
  by (simp add: claimed_def deployed_def)

text \<open>
  C4 as stated fails where the sum overflows. In the reachable state \<open>recommitted\<close> the
  window is open, \<open>deployer\<close> has not claimed, the amt \<open>2^256 - 1\<close> is not zero and its
  empty proof recomputes the stored root; \<open>totalClaimed + amt\<close> is \<open>5 + 2^256 - 1\<close>, more
  than the cap of 10. The call reverts with \<open>Panic 0x11\<close>, not with \<open>InsufficientTokens\<close>.
\<close>

theorem claimTokens_cap_overflow_panics:
  "updateAirdrop claimed deployer 60 (keccak256_sol (encodePacked deployer max_uint256)) 100 10
     = Inr recommitted \<and>
   (70 :: uint256) \<le> claimPeriodEnd recommitted \<and>
   \<not> hasClaimed recommitted deployer \<and>
   max_uint256 \<noteq> 0 \<and>
   MerkleProof_verify [] (merkleRoot recommitted) (keccak256_sol (encodePacked deployer max_uint256)) \<and>
   uint (totalClaimable recommitted) < uint (totalClaimed recommitted) + uint max_uint256 \<and>
   transact recommitted (deployer, 70, ClaimTokens max_uint256 [])
     = (recommitted, Some (Panic 0x11)) \<and>
   Panic 0x11 \<noteq> InsufficientTokens"
  by (simp add: claimed_recommit)
     (simp add: transact_def claimTokens_def checked_add_def recommitted_def claimed_def
        deployed_def MerkleProof_verify_def max_uint256_def)

subsection \<open>The claim window\<close>

text \<open>
  C7. After the window end no claim succeeds: in every state, when the block timestamp
  is greater than \<open>claimPeriodEnd\<close>, \<open>claimTokens\<close> reverts for every caller, every amt and
  every proof, whether or not the proof recomputes the stored root. The revert is
  \<open>ClaimPeriodEnded\<close> and the transaction leaves the state unchanged.
\<close>

theorem claimTokens_after_window_reverts:
  "now > claimPeriodEnd s \<Longrightarrow>
     claimTokens s sender now amt merkleProof = Inl ClaimPeriodEnded \<and>
     transact s (sender, now, ClaimTokens amt merkleProof) = (s, Some ClaimPeriodEnded)"
  by (simp add: claimTokens_def transact_def)

theorem claimTokens_after_window_reverts_witness:
  "claimPeriodEnd
     \<lparr>this = 0xA1D, owner = 1, token = 2, ledger = \<lparr>balanceOf = (\<lambda>_. 1000), paused = False\<rparr>,
      merkleRoot = keccak256_sol (encodePacked 0xA11CE 5), claimPeriodEnd = 100,
      totalClaimable = 1000, totalClaimed = 0, hasClaimed = (\<lambda>_. False),
      claimedAmount = (\<lambda>_. 0), events = []\<rparr> < (101 :: uint256) \<and>
   MerkleProof_verify [] (keccak256_sol (encodePacked 0xA11CE 5)) (keccak256_sol (encodePacked 0xA11CE 5)) \<and>
   claimTokens
     \<lparr>this = 0xA1D, owner = 1, token = 2, ledger = \<lparr>balanceOf = (\<lambda>_. 1000), paused = False\<rparr>,
      merkleRoot = keccak256_sol (encodePacked 0xA11CE 5), claimPeriodEnd = 100,
      totalClaimable = 1000, totalClaimed = 0, hasClaimed = (\<lambda>_. False),
      claimedAmount = (\<lambda>_. 0), events = []\<rparr> 0xA11CE 101 5 [] = Inl ClaimPeriodEnded"
  using claimTokens_after_window_reverts
    [of "\<lparr>this = 0xA1D, owner = 1, token = 2, ledger = \<lparr>balanceOf = (\<lambda>_. 1000), paused = False\<rparr>,
      merkleRoot = keccak256_sol (encodePacked 0xA11CE 5), claimPeriodEnd = 100,
      totalClaimable = 1000, totalClaimed = 0, hasClaimed = (\<lambda>_. False),
      claimedAmount = (\<lambda>_. 0), events = []\<rparr>" 101 "0xA11CE" 5 "[]"]
  by (simp add: MerkleProof_verify_def)

subsection \<open>One claim per address\<close>

lemma execute_keeps_claim_record:
  assumes "hasClaimed s a" and "execute s t = Inr s'"
  shows "hasClaimed s' a \<and> claimedAmount s' a = claimedAmount s a"
proof -
  obtain sender now c where t: "t = (sender, now, c)" by (cases t)
  show ?thesis
    using assms unfolding t
    by (cases c)
       (auto simp: claimTokens_def updateAirdrop_def emergencyWithdraw_def extendClaimPeriod_def
          transferOwnership_def renounceOwnership_def Let_def split: if_splits sum.splits)
qed

lemma transact_keeps_claim_record:
  "hasClaimed s a \<Longrightarrow>
     hasClaimed (fst (transact s t)) a \<and>
     claimedAmount (fst (transact s t)) a = claimedAmount s a"
  using execute_keeps_claim_record [of s a t]
  by (auto simp: transact_def split: sum.splits)

lemma run_keeps_claim_record:
  "hasClaimed s a \<Longrightarrow>
     hasClaimed (run s txs) a \<and> claimedAmount (run s txs) a = claimedAmount s a"
proof (induction txs arbitrary: s)
  case Nil
  then show ?case by (simp add: run_def)
next
  case (Cons t txs)
  have "hasClaimed (fst (transact s t)) a"
    and "claimedAmount (fst (transact s t)) a = claimedAmount s a"
    using transact_keeps_claim_record [OF Cons.prems] by simp_all
  with Cons.IH [of "fst (transact s t)"] show ?case by (simp add: run_def)
qed

lemma claimTokens_sets_claim_record:
  assumes "claimTokens s a now amt mp = Inr s'"
  shows "\<not> hasClaimed s a \<and> hasClaimed s' a \<and> claimedAmount s' a = amt"
  using assms
  by (auto simp: claimTokens_def Let_def split: if_splits sum.splits)

lemma claimed_address_reverts:
  assumes "hasClaimed s a"
  shows "transact s (a, now, ClaimTokens amt mp) =
           (s, Some (if now > claimPeriodEnd s then ClaimPeriodEnded else AlreadyClaimed))"
  using assms by (simp add: transact_def claimTokens_def)

text \<open>
  C5, as the code has it. A claim succeeds at most once per address, and the claim record
  is never reset. A \<open>claimTokens\<close> call from \<open>a\<close> succeeds only where \<open>hasClaimed a\<close> is false,
  and it sets \<open>hasClaimed a\<close> and stores the amount in \<open>claimedAmount a\<close>; after it, and after
  any sequence of further transactions, every \<open>claimTokens\<close> call from \<open>a\<close> reverts and the
  stored amount is still the one claimed. In every state where \<open>hasClaimed a\<close> holds, every
  further \<open>claimTokens\<close> call from \<open>a\<close> reverts and leaves the state unchanged: with
  \<open>AlreadyClaimed\<close> while the window is open, and with \<open>ClaimPeriodEnded\<close> once the block
  timestamp is past \<open>claimPeriodEnd\<close>, because the window is checked first. No sequence of
  transactions, whoever sends them and whatever they call (\<open>updateAirdrop\<close> included), sets
  \<open>hasClaimed a\<close> back to false or changes \<open>claimedAmount a\<close>.
\<close>

theorem claim_record_is_final:
  "(claimTokens s a now amt mp = Inr s' \<longrightarrow>
      \<not> hasClaimed s a \<and> hasClaimed s' a \<and> claimedAmount s' a = amt \<and>
      transact (run s' txs) (a, now', ClaimTokens amt' mp') =
        (run s' txs,
         Some (if now' > claimPeriodEnd (run s' txs) then ClaimPeriodEnded else AlreadyClaimed)) \<and>
      hasClaimed (run s' txs) a \<and> claimedAmount (run s' txs) a = amt) \<and>
   (hasClaimed s a \<longrightarrow>
      transact s (a, now', ClaimTokens amt' mp') =
        (s, Some (if now' > claimPeriodEnd s then ClaimPeriodEnded else AlreadyClaimed)) \<and>
      hasClaimed (run s txs) a \<and> claimedAmount (run s txs) a = claimedAmount s a)"
proof (intro conjI impI)
  assume ok: "claimTokens s a now amt mp = Inr s'"
  have rec: "\<not> hasClaimed s a" "hasClaimed s' a" "claimedAmount s' a = amt"
    using claimTokens_sets_claim_record [OF ok] by simp_all
  have later: "hasClaimed (run s' txs) a" "claimedAmount (run s' txs) a = claimedAmount s' a"
    using run_keeps_claim_record [OF rec(2), of txs] by simp_all
  show "\<not> hasClaimed s a" "hasClaimed s' a" "claimedAmount s' a = amt"
    using rec by simp_all
  show "hasClaimed (run s' txs) a" using later(1) .
  show "claimedAmount (run s' txs) a = amt" using later(2) rec(3) by simp
  show "transact (run s' txs) (a, now', ClaimTokens amt' mp') =
        (run s' txs,
         Some (if now' > claimPeriodEnd (run s' txs) then ClaimPeriodEnded else AlreadyClaimed))"
    using claimed_address_reverts [OF later(1)] .
next
  assume h: "hasClaimed s a"
  show "transact s (a, now', ClaimTokens amt' mp') =
        (s, Some (if now' > claimPeriodEnd s then ClaimPeriodEnded else AlreadyClaimed))"
    using claimed_address_reverts [OF h] .
  show "hasClaimed (run s txs) a" "claimedAmount (run s txs) a = claimedAmount s a"
    using run_keeps_claim_record [OF h, of txs] by simp_all
qed

theorem claim_record_is_final_witness:
  "claimTokens deployed alice 50 5 [] = Inr claimed \<and>
   \<not> hasClaimed deployed alice \<and> hasClaimed claimed alice \<and> claimedAmount claimed alice = 5 \<and>
   run claimed [(deployer, 60, UpdateAirdrop 0 200 1)] = lowered \<and>
   transact lowered (alice, 60, ClaimTokens 7 []) = (lowered, Some AlreadyClaimed) \<and>
   transact lowered (alice, 201, ClaimTokens 7 []) = (lowered, Some ClaimPeriodEnded) \<and>
   transact claimed (alice, 60, ClaimTokens 7 []) = (claimed, Some AlreadyClaimed) \<and>
   transact claimed (alice, 101, ClaimTokens 7 []) = (claimed, Some ClaimPeriodEnded) \<and>
   hasClaimed lowered alice \<and> claimedAmount lowered alice = 5"
proof -
  have r: "run claimed [(deployer, 60, UpdateAirdrop 0 200 1)] = lowered"
    by (simp add: run_def transact_def claimed_update)
  show ?thesis
    using claim_record_is_final
            [where s = deployed and a = alice and now = 50 and amt = 5 and mp = "[]"
               and s' = claimed and txs = "[(deployer, 60, UpdateAirdrop 0 200 1)]"
               and now' = 60 and amt' = 7 and mp' = "[]"]
          claim_record_is_final
            [where s = deployed and a = alice and now = 50 and amt = 5 and mp = "[]"
               and s' = claimed and txs = "[(deployer, 60, UpdateAirdrop 0 200 1)]"
               and now' = 201 and amt' = 7 and mp' = "[]"]
          claim_record_is_final
            [where s = claimed and a = alice and now = 50 and amt = 5 and mp = "[]"
               and s' = claimed and txs = "[]" and now' = 60 and amt' = 7 and mp' = "[]"]
          claim_record_is_final
            [where s = claimed and a = alice and now = 50 and amt = 5 and mp = "[]"
               and s' = claimed and txs = "[]" and now' = 101 and amt' = 7 and mp' = "[]"]
    by (simp add: deployed_claim r)
       (simp add: claimed_def deployed_def lowered_def run_def)
qed

text \<open>
  C5 as stated fails after the window: \<open>claimed\<close> is reached by deploying and letting
  \<open>alice\<close> claim; her second call at time 101 reverts with \<open>ClaimPeriodEnded\<close>, not with
  \<open>AlreadyClaimed\<close>.
\<close>

theorem second_claim_after_window_is_ClaimPeriodEnded:
  "constructor pool deployer 10 funded 0x70 (keccak256_sol (encodePacked alice 5)) 100 10
     = Inr deployed \<and>
   transact deployed (alice, 50, ClaimTokens 5 []) = (claimed, None) \<and>
   hasClaimed claimed alice \<and>
   transact claimed (alice, 101, ClaimTokens 5 []) = (claimed, Some ClaimPeriodEnded) \<and>
   ClaimPeriodEnded \<noteq> AlreadyClaimed"
  by (simp add: deployed_constructed deployed_claim transact_def)
     (simp add: claimTokens_def claimed_def deployed_def)

subsection \<open>The cap\<close>

text \<open>Every call but an \<open>updateAirdrop\<close> that sets the cap below the running total keeps
  \<open>totalClaimed \<le> totalClaimable\<close>.\<close>

lemma execute_keeps_cap:
  assumes "totalClaimed s \<le> totalClaimable s" and "execute s (sender, now, c) = Inr s'"
    and "\<And>r e cap. c = UpdateAirdrop r e cap \<Longrightarrow> totalClaimed s \<le> cap"
  shows "totalClaimed s' \<le> totalClaimable s'"
  using assms
  by (cases c)
     (auto simp: claimTokens_def updateAirdrop_def emergencyWithdraw_def extendClaimPeriod_def
        transferOwnership_def renounceOwnership_def Let_def not_less
        split: if_splits sum.splits)

text \<open>
  C6. The claim is that \<open>totalClaimed \<le> totalClaimable\<close> holds in every reachable state.
  \<open>updateAirdrop\<close> stores the new cap without comparing it with \<open>totalClaimed\<close>: from the
  constructor's state, a claim of 5 followed by the owner's \<open>updateAirdrop\<close> with cap 1
  reaches \<open>lowered\<close>, where \<open>totalClaimed = 5\<close> and \<open>totalClaimable = 1\<close>.
\<close>

theorem updateAirdrop_lowers_cap_below_totalClaimed:
  "constructor pool deployer 10 funded 0x70 (keccak256_sol (encodePacked alice 5)) 100 10
     = Inr deployed \<and>
   run deployed [(alice, 50, ClaimTokens 5 []), (deployer, 60, UpdateAirdrop 0 200 1)] = lowered \<and>
   totalClaimed lowered = 5 \<and> totalClaimable lowered = 1 \<and>
   totalClaimable lowered < totalClaimed lowered"
  by (simp add: deployed_constructed run_example) (simp add: lowered_def claimed_def)

subsection \<open>\<open>canClaim\<close> and \<open>claimTokens\<close>\<close>

text \<open>
  C9. Provided the token transfer of \<open>amt\<close> from the contract to \<open>user\<close> does not
  revert, \<open>canClaim user amt proof\<close> returns true exactly when \<open>claimTokens amt proof\<close>
  sent by \<open>user\<close> in the same state and block succeeds; and both hold exactly when the
  window is open, the user has not claimed, the amt is not zero, \<open>totalClaimed + amt\<close>
  is at most \<open>totalClaimable\<close>, and the proof recomputes the stored root.
\<close>

theorem canClaim_iff_claimTokens_succeeds:
  assumes "\<not> isl (safeTransfer (ledger s) (this s) user amt)"
  shows "((canClaim s now user amt mp = Inr True) = (\<not> isl (claimTokens s user now amt mp))) \<and>
   ((canClaim s now user amt mp = Inr True) =
      (now \<le> claimPeriodEnd s \<and> \<not> hasClaimed s user \<and> amt \<noteq> 0 \<and>
       uint (totalClaimed s) + uint amt \<le> uint (totalClaimable s) \<and>
       MerkleProof_verify mp (merkleRoot s) (keccak256_sol (encodePacked user amt))))"
proof -
  have sum: "uint (totalClaimed s) + uint amt < 2 ^ 256 \<Longrightarrow>
      uint (totalClaimed s + amt) = uint (totalClaimed s) + uint amt"
    by (simp add: uint_word_ariths)
  show ?thesis
    using assms uint_uint256_bound [of "totalClaimable s"] sum
    by (auto simp: canClaim_def claimTokens_def checked_add_def word_le_def
          word_less_def not_less Let_def split: sum.splits if_splits)
qed

theorem canClaim_iff_claimTokens_succeeds_witness:
  "\<not> isl (safeTransfer (ledger deployed) (this deployed) alice 5) \<and>
   canClaim deployed 50 alice 5 [] = Inr True \<and>
   \<not> isl (claimTokens deployed alice 50 5 []) \<and>
   canClaim claimed 50 alice 5 [] = Inr False \<and>
   isl (claimTokens claimed alice 50 5 [])"
  using canClaim_iff_claimTokens_succeeds
          [where s = deployed and user = alice and amt = 5 and now = 50 and mp = "[]"]
  by (simp add: deployed_claim)
     (simp add: canClaim_def claimTokens_def claimed_def deployed_def safeTransfer_def funded_def)

subsection \<open>\<open>getAirdropStats\<close>\<close>

text \<open>
  C10. While \<open>totalClaimed \<le> totalClaimable\<close>, \<open>getAirdropStats\<close> returns, and its third
  component is \<open>totalClaimable - totalClaimed\<close> computed without underflow. In a state with
  \<open>totalClaimed > totalClaimable\<close> the subtraction underflows and the call reverts with the
  arithmetic panic. Such a state is reachable: the owner's \<open>updateAirdrop\<close>, called before
  the new window end with a cap below \<open>totalClaimed\<close>, succeeds and leaves the cap below
  the running total.
\<close>

theorem getAirdropStats_needs_cap_invariant:
  "(totalClaimed s \<le> totalClaimable s \<longrightarrow>
      getAirdropStats s now =
        Inr (totalClaimable s, totalClaimed s, totalClaimable s - totalClaimed s,
             claimPeriodEnd s, now \<le> claimPeriodEnd s) \<and>
      uint (totalClaimable s - totalClaimed s) + uint (totalClaimed s) = uint (totalClaimable s)) \<and>
   (totalClaimable s < totalClaimed s \<longrightarrow> getAirdropStats s now = Inl (Panic 0x11)) \<and>
   (sender = owner s \<and> now < e \<and> cap < totalClaimed s \<longrightarrow>
      (\<exists>s'. updateAirdrop s sender now r e cap = Inr s' \<and> totalClaimable s' < totalClaimed s')) \<and>
   (\<exists>s'. reachable s' \<and> totalClaimable s' < totalClaimed s')"
proof -
  have "reachable lowered \<and> totalClaimable lowered < totalClaimed lowered"
    using reachable_lowered by (simp add: lowered_def claimed_def)
  then have "\<exists>s'. reachable s' \<and> totalClaimable s' < totalClaimed s'" by blast
  moreover have "totalClaimed s \<le> totalClaimable s \<Longrightarrow>
      uint (totalClaimable s - totalClaimed s) + uint (totalClaimed s) = uint (totalClaimable s)"
    by (simp add: uint_sub_lem word_le_def)
  ultimately show ?thesis
    by (auto simp: getAirdropStats_def checked_sub_def updateAirdrop_def not_le)
qed

theorem getAirdropStats_needs_cap_invariant_witness:
  "totalClaimed deployed \<le> totalClaimable deployed \<and>
   getAirdropStats deployed 60 = Inr (10, 0, 10, 100, True) \<and>
   totalClaimable lowered < totalClaimed lowered \<and>
   getAirdropStats lowered 60 = Inl (Panic 0x11) \<and>
   updateAirdrop claimed deployer 60 0 200 1 = Inr lowered"
  using getAirdropStats_needs_cap_invariant
          [where s = deployed and now = 60 and sender = deployer and e = 200 and cap = 1 and r = 0]
        getAirdropStats_needs_cap_invariant
          [where s = lowered and now = 60 and sender = deployer and e = 200 and cap = 1 and r = 0]
        claimed_update
  by (simp add: deployed_def lowered_def claimed_def)

end
